theory Spec2Isabelle
  imports Complex_Main "HOL-Library.Sublist"
begin

section \<open>Python values\<close>

text \<open>
  The extension \<^verbatim>\<open>extensions/hearthstone/hearthstone.py\<close> is embedded function by
  function. Python exceptions are values of \<open>py_error\<close>; a function that can raise returns
  \<open>py_error + 'a\<close> with \<open>Inl\<close> for the exception. Python strings are \<open>string\<close>
  (ASCII), Python integers that count characters are \<open>nat\<close>, and Python floats are exact
  rationals (\<open>rat\<close>): rounding is not modelled, the structure of every computation is.
\<close>

datatype py_error =
  KeyError | IndexError | ValueError | ZeroDivisionError | TypeError | FileNotFoundError
  | RequestException

section \<open>The edit distance: \<^verbatim>\<open>calc_levenshtein_distance\<close>\<close>

text \<open>
  The inner loop \<^verbatim>\<open>for j, c2 in enumerate(s2)\<close> appends one cell to
  \<^verbatim>\<open>current_row\<close> per character of \<open>s2\<close>; \<open>j\<close> is the loop index. The rows are
  read by index as in the source; that every index is in range is part of the
  correctness proof (lemma \<open>inner_row_correct\<close>).
\<close>

fun inner_row :: "'a \<Rightarrow> nat list \<Rightarrow> nat list \<Rightarrow> nat \<Rightarrow> 'a list \<Rightarrow> nat list" where
  "inner_row c1 previous_row current_row j [] = current_row"
| "inner_row c1 previous_row current_row j (c2 # s2) =
     (let insertions = previous_row ! (j + 1) + 1;
          deletions = current_row ! j + 1;
          substitutions = previous_row ! j + (if c1 \<noteq> c2 then 1 else 0)
      in inner_row c1 previous_row
           (current_row @ [min insertions (min deletions substitutions)]) (j + 1) s2)"

text \<open>
  The outer loop \<^verbatim>\<open>for i, c1 in enumerate(s1)\<close>: a new row starts as \<^verbatim>\<open>[i + 1]\<close>
  and replaces \<^verbatim>\<open>previous_row\<close> when it is complete.
\<close>

fun outer_rows :: "nat list \<Rightarrow> nat \<Rightarrow> 'a list \<Rightarrow> 'a list \<Rightarrow> nat list" where
  "outer_rows previous_row i [] s2 = previous_row"
| "outer_rows previous_row i (c1 # s1) s2 =
     outer_rows (inner_row c1 previous_row [i + 1] 0 s2) (i + 1) s1 s2"

function calc_levenshtein_distance :: "'a list \<Rightarrow> 'a list \<Rightarrow> nat" where
  "calc_levenshtein_distance s1 s2 =
     (if length s1 < length s2 then calc_levenshtein_distance s2 s1
      else if length s2 = 0 then length s1
      else last (outer_rows [0..<length s2 + 1] 0 s1 s2))"
  by pat_completeness auto
termination
  by (relation "measure (\<lambda>(s1, s2). if length s1 < length s2 then 1 else 0)") auto

declare calc_levenshtein_distance.simps [simp del]

subsection \<open>The edit distance of the specification\<close>

text \<open>
  One single-character edit: a character is inserted, deleted or substituted anywhere in
  the string. The edit distance is the least number of such edits that turn one string
  into the other.
\<close>

inductive edit_step :: "'a list \<Rightarrow> 'a list \<Rightarrow> bool" where
  insert_char: "edit_step (u @ v) (u @ c # v)"
| delete_char: "edit_step (u @ c # v) (u @ v)"
| substitute_char: "edit_step (u @ c # v) (u @ d # v)"

definition edit_distance :: "'a list \<Rightarrow> 'a list \<Rightarrow> nat" where
  "edit_distance a b = (LEAST n. (edit_step ^^ n) a b)"

text \<open>
  The recurrence of Wagner and Fischer connects the two in the proofs, and \<open>lev_row\<close>
  is the row of the dynamic-programming table for the reversed prefix \<open>a\<close> of \<open>s1\<close>.
\<close>

fun lev :: "'a list \<Rightarrow> 'a list \<Rightarrow> nat" where
  "lev [] ys = length ys"
| "lev (x # xs) [] = Suc (length xs)"
| "lev (x # xs) (y # ys) =
     min (lev xs (y # ys) + 1) (min (lev (x # xs) ys + 1) (lev xs ys + (if x = y then 0 else 1)))"

definition lev_row :: "'a list \<Rightarrow> 'a list \<Rightarrow> nat list" where
  "lev_row a s2 = map (\<lambda>k. lev a (rev (take k s2))) [0..<length s2 + 1]"

section \<open>Strings and dictionaries of Python\<close>

text \<open>\<^verbatim>\<open>s.strip(c)\<close> for a single character \<open>c\<close>: drops it from both ends.\<close>

definition py_strip :: "char \<Rightarrow> string \<Rightarrow> string" where
  "py_strip c s = rev (dropWhile (\<lambda>x. x = c) (rev (dropWhile (\<lambda>x. x = c) s)))"

text \<open>\<^verbatim>\<open>s.lower()\<close> and \<^verbatim>\<open>s.upper()\<close> on ASCII letters; other characters stay.\<close>

definition lower_char :: "char \<Rightarrow> char" where
  "lower_char c =
     (case map_of (zip ''ABCDEFGHIJKLMNOPQRSTUVWXYZ'' ''abcdefghijklmnopqrstuvwxyz'') c of
        Some d \<Rightarrow> d | None \<Rightarrow> c)"

definition upper_char :: "char \<Rightarrow> char" where
  "upper_char c =
     (case map_of (zip ''abcdefghijklmnopqrstuvwxyz'' ''ABCDEFGHIJKLMNOPQRSTUVWXYZ'') c of
        Some d \<Rightarrow> d | None \<Rightarrow> c)"

definition py_lower :: "string \<Rightarrow> string" where
  "py_lower s = map lower_char s"

text \<open>
  \<^verbatim>\<open>s.split(sep)\<close> for a single character \<open>sep\<close>: every occurrence separates two
  tokens, so two adjacent separators give an empty token and the result is never empty.
\<close>

fun py_split :: "char \<Rightarrow> string \<Rightarrow> string list" where
  "py_split sep [] = [[]]"
| "py_split sep (c # cs) =
     (if c = sep then [] # py_split sep cs
      else (case py_split sep cs of w # ws \<Rightarrow> (c # w) # ws | [] \<Rightarrow> [[c]]))"

text \<open>
  \<^verbatim>\<open>s.replace(old, new)\<close>: the occurrences of \<open>old\<close> are replaced from left to right
  and do not overlap; the empty \<open>old\<close> matches before every character and at the end.
\<close>

function py_replace :: "string \<Rightarrow> string \<Rightarrow> string \<Rightarrow> string" where
  "py_replace s old new =
     (if old = [] then new @ concat (map (\<lambda>c. c # new) s)
      else if s = [] then []
      else if take (length old) s = old then new @ py_replace (drop (length old) s) old new
      else hd s # py_replace (tl s) old new)"
  by pat_completeness auto
termination
  by (relation "measure (\<lambda>(s, old, new). length s)") auto

declare py_replace.simps [simp del]

text \<open>
  A \<^verbatim>\<open>dict\<close> keeps its keys in insertion order: an association list in which
  \<^verbatim>\<open>d[k] = v\<close> (and \<^verbatim>\<open>d.update({k: v})\<close>) overwrites the value of a key that is
  present, in place, and appends a new key at the end. \<open>map_of\<close> is the lookup.
\<close>

fun dict_set :: "'k \<Rightarrow> 'v \<Rightarrow> ('k \<times> 'v) list \<Rightarrow> ('k \<times> 'v) list" where
  "dict_set k v [] = [(k, v)]"
| "dict_set k v ((k', v') # d) =
     (if k' = k then (k, v) # d else (k', v') # dict_set k v d)"

text \<open>True division \<^verbatim>\<open>a / b\<close> of two lengths.\<close>

definition py_truediv :: "nat \<Rightarrow> nat \<Rightarrow> py_error + rat" where
  "py_truediv a b = (if b = 0 then Inl ZeroDivisionError else Inr (of_nat a / of_nat b))"

section \<open>Cards and the cog's state\<close>

text \<open>
  A card is a JSON object; the keys the program reads are fields, \<open>None\<close> when the key
  is absent (\<^verbatim>\<open>card['k']\<close> then raises \<^verbatim>\<open>KeyError\<close>).
\<close>

record card =
  card_name :: "string option"
  card_type :: "string option"
  card_set :: "string option"
  card_text :: "string option"
  card_flavor :: "string option"
  card_playerClass :: "string option"
  card_collectible :: "bool option"
  card_cost :: "int option"
  card_attack :: "int option"
  card_health :: "int option"
  card_durability :: "int option"

text \<open>The attributes of the \<^verbatim>\<open>Hearthstone\<close> object that the lookup can reach.\<close>

record hearthstone =
  self_cards :: "card list"
  self_min_match :: rat
  self_whitelist :: "string list"

section \<open>The lookup: \<^verbatim>\<open>_find_card\<close>\<close>

text \<open>The value assigned to \<^verbatim>\<open>match\<close> for one search word and one card word.\<close>

definition word_match :: "string \<Rightarrow> string \<Rightarrow> py_error + rat" where
  "word_match search_word card_word =
     (case py_truediv (calc_levenshtein_distance search_word card_word)
             (max (length search_word) (length card_word)) of
        Inl e \<Rightarrow> Inl e
      | Inr q \<Rightarrow> Inr (1 - q))"

text \<open>
  \<^verbatim>\<open>search_words\<close> maps a search word to a dict from card words to
  \<^verbatim>\<open>{'match': match}\<close>; the inner one-key dict is its value.
\<close>

type_synonym match_dict = "(string \<times> rat) list"
type_synonym search_dict = "(string \<times> match_dict) list"

text \<open>\<^verbatim>\<open>for word in query.split(' '): search_words.update({word : {}})\<close>\<close>

fun init_search_words :: "string list \<Rightarrow> search_dict \<Rightarrow> search_dict" where
  "init_search_words [] search_words = search_words"
| "init_search_words (word # ws) search_words =
     init_search_words ws (dict_set word [] search_words)"

text \<open>\<^verbatim>\<open>for card_word in card_words\<close>, for one search word.\<close>

fun match_card_words :: "string \<Rightarrow> string list \<Rightarrow> search_dict \<Rightarrow> py_error + search_dict" where
  "match_card_words search_word [] search_words = Inr search_words"
| "match_card_words search_word (card_word # cws) search_words =
     (case word_match search_word card_word of
        Inl e \<Rightarrow> Inl e
      | Inr m \<Rightarrow>
          match_card_words search_word cws
            (case map_of search_words search_word of
               None \<Rightarrow> dict_set search_word [(card_word, m)] search_words
             | Some d \<Rightarrow> dict_set search_word (dict_set card_word m d) search_words))"

text \<open>\<^verbatim>\<open>for search_word in search_words\<close> (first loop), over the keys of the dict.\<close>

fun match_search_words :: "string list \<Rightarrow> string list \<Rightarrow> search_dict \<Rightarrow> py_error + search_dict" where
  "match_search_words [] card_words search_words = Inr search_words"
| "match_search_words (search_word # rest) card_words search_words =
     (case match_card_words search_word card_words search_words of
        Inl e \<Rightarrow> Inl e
      | Inr search_words' \<Rightarrow> match_search_words rest card_words search_words')"

text \<open>
  \<^verbatim>\<open>for card_word in search_words[search_word]\<close>: the running maximum is replaced
  only by a strictly greater match.
\<close>

fun max_value_loop :: "match_dict \<Rightarrow> string \<times> rat \<Rightarrow> string \<times> rat" where
  "max_value_loop [] best = best"
| "max_value_loop ((card_word, m) # d) (max_value_key, max_value) =
     (if m > max_value then max_value_loop d (card_word, m)
      else max_value_loop d (max_value_key, max_value))"

text \<open>
  \<^verbatim>\<open>for search_word in search_words\<close> (second loop): the best card word of every
  search word adds to \<^verbatim>\<open>percent_match\<close>.
\<close>

fun percent_match_loop ::
  "string list \<Rightarrow> search_dict \<Rightarrow> string \<Rightarrow> string \<Rightarrow> rat \<Rightarrow> py_error + rat" where
  "percent_match_loop [] search_words name query percent_match = Inr percent_match"
| "percent_match_loop (search_word # rest) search_words name query percent_match =
     (case map_of search_words search_word of
        None \<Rightarrow> Inl KeyError
      | Some d \<Rightarrow>
          (case d of
             [] \<Rightarrow> Inl IndexError
           | first # _ \<Rightarrow>
               (case max_value_loop d first of
                  (max_value_key, max_value) \<Rightarrow>
                    (case py_truediv (length max_value_key) (length (py_replace name '' '' '''')) of
                       Inl e \<Rightarrow> Inl e
                     | Inr percent_test_string_match \<Rightarrow>
                         (case py_truediv (length search_word)
                                 (length (py_replace query '' '' '''')) of
                            Inl e \<Rightarrow> Inl e
                          | Inr percent_string_match \<Rightarrow>
                              percent_match_loop rest search_words name query
                                (percent_match
                                 + (percent_string_match * max_value * (3 / 4)
                                    + percent_test_string_match * max_value * (1 / 4))))))))"

text \<open>
  The body of \<^verbatim>\<open>for card in self.cards\<close> up to the final \<^verbatim>\<open>percent_match\<close>
  (the loop variable \<^verbatim>\<open>card\<close> is written \<open>c\<close>).
\<close>

definition name_percent_match :: "string \<Rightarrow> string \<Rightarrow> py_error + rat" where
  "name_percent_match query name =
     (let search_words = init_search_words (py_split CHR '' '' query) [];
          card_words = py_split CHR '' '' name
      in case match_search_words (map fst search_words) card_words search_words of
           Inl e \<Rightarrow> Inl e
         | Inr search_words' \<Rightarrow>
             percent_match_loop (map fst search_words') search_words' name query 0)"

definition card_percent_match :: "string \<Rightarrow> card \<Rightarrow> py_error + rat" where
  "card_percent_match query c =
     (case card_name c of
        None \<Rightarrow> Inl KeyError
      | Some n \<Rightarrow> name_percent_match query (py_lower n))"

fun find_card_loop ::
  "card list \<Rightarrow> string \<Rightarrow> rat \<Rightarrow> (card \<times> rat) list \<Rightarrow> py_error + (card \<times> rat) list" where
  "find_card_loop [] query min_match results = Inr results"
| "find_card_loop (c # rest) query min_match results =
     (case card_percent_match query c of
        Inl e \<Rightarrow> Inl e
      | Inr percent_match \<Rightarrow>
          find_card_loop rest query min_match
            (if percent_match \<ge> min_match then results @ [(c, percent_match)] else results))"

text \<open>
  \<^verbatim>\<open>_find_card(self, query, min_match)\<close> returns the card or \<^verbatim>\<open>None\<close>, and the
  object \<^verbatim>\<open>self\<close> as the call leaves it. \<^verbatim>\<open>results.sort(key=..., reverse=True)\<close> is
  a stable sort by descending score: \<open>sort_key\<close> on the negated score.
\<close>

definition find_card :: "hearthstone \<Rightarrow> string \<Rightarrow> rat \<Rightarrow> (py_error + card option) \<times> hearthstone" where
  "find_card self query0 min_match =
     (let query = py_lower (py_strip CHR '' '' query0) in
      if length query < 1 then (Inr None, self)
      else (case find_card_loop (self_cards self) query min_match [] of
              Inl e \<Rightarrow> (Inl e, self)
            | Inr results \<Rightarrow>
                if length results < 1 then (Inr None, self)
                else (Inr (Some (fst (hd (sort_key (\<lambda>r. - snd r) results)))), self)))"

subsection \<open>The score of the specification\<close>

text \<open>
  The similarity of a query token and a name token, the first name token of maximal
  similarity, and the contribution of one query token, in the specification's words.
\<close>

definition spec_similarity :: "string \<Rightarrow> string \<Rightarrow> rat" where
  "spec_similarity a b =
     1 - of_nat (calc_levenshtein_distance a b) / of_nat (max (length a) (length b))"

definition spec_best_token :: "string \<Rightarrow> string list \<Rightarrow> string" where
  "spec_best_token q name_tokens =
     hd (filter (\<lambda>m. \<forall>t\<in>set name_tokens. spec_similarity q t \<le> spec_similarity q m) name_tokens)"

definition spec_contribution :: "string \<Rightarrow> string \<Rightarrow> string \<Rightarrow> rat" where
  "spec_contribution query name q =
     (let name_tokens = py_split CHR '' '' name;
          s = Max (spec_similarity q ` set name_tokens);
          m = spec_best_token q name_tokens;
          tokenCoverage = of_nat (length q) / of_nat (length (filter (\<lambda>c. c \<noteq> CHR '' '') query));
          nameCoverage = of_nat (length m) / of_nat (length (filter (\<lambda>c. c \<noteq> CHR '' '') name))
      in tokenCoverage * s * (3 / 4) + nameCoverage * s * (1 / 4))"

subsection \<open>Auxiliary notions for the proofs\<close>

text \<open>The keys of a dict filled from a list: every element once, at its first position.\<close>

fun uniq :: "'a list \<Rightarrow> 'a list" where
  "uniq [] = []"
| "uniq (x # xs) = x # filter (\<lambda>y. y \<noteq> x) (uniq xs)"

definition dict_fill :: "('k \<Rightarrow> 'v) \<Rightarrow> 'k list \<Rightarrow> ('k \<times> 'v) list \<Rightarrow> ('k \<times> 'v) list" where
  "dict_fill f ks d = foldl (\<lambda>d k. dict_set k (f k) d) d ks"

text \<open>A card with the three keys every record of the dataset has, for the examples.\<close>

definition make_card :: "string \<Rightarrow> string \<Rightarrow> string \<Rightarrow> card" where
  "make_card n t s =
     \<lparr>card_name = Some n, card_type = Some t, card_set = Some s, card_text = None,
      card_flavor = None, card_playerClass = None, card_collectible = None, card_cost = None,
      card_attack = None, card_health = None, card_durability = None\<rparr>"

section \<open>Cleaning the dataset: \<^verbatim>\<open>_clean_cards_dict\<close> and \<^verbatim>\<open>_format_card\<close>\<close>

text \<open>The constants of the classes \<^verbatim>\<open>CardType\<close> and \<^verbatim>\<open>CardSet\<close> that the program uses.\<close>

definition CardType_MINION :: string where "CardType_MINION = ''MINION''"
definition CardType_SPELL :: string where "CardType_SPELL = ''SPELL''"
definition CardType_WEAPON :: string where "CardType_WEAPON = ''WEAPON''"

definition CardSet_BASIC :: string where "CardSet_BASIC = ''CORE''"
definition CardSet_CLASSIC :: string where "CardSet_CLASSIC = ''EXPERT1''"
definition CardSet_CHEAT :: string where "CardSet_CHEAT = ''CHEAT''"
definition CardSet_CREDITS :: string where "CardSet_CREDITS = ''CREDITS''"
definition CardSet_HERO_SKINS :: string where "CardSet_HERO_SKINS = ''HERO_SKINS''"
definition CardSet_MISSIONS :: string where "CardSet_MISSIONS = ''MISSIONS''"
definition CardSet_NONE :: string where "CardSet_NONE = ''NONE''"
definition CardSet_TAVERNBRAWL :: string where "CardSet_TAVERNBRAWL = ''TB''"

text \<open>\<^verbatim>\<open>s.title()\<close> on ASCII letters: a letter after a letter is lowered, any other letter is raised.\<close>

fun title_from :: "bool \<Rightarrow> string \<Rightarrow> string" where
  "title_from previous_is_cased [] = []"
| "title_from previous_is_cased (c # cs) =
     (if c \<in> set ''abcdefghijklmnopqrstuvwxyz''
      then (if previous_is_cased then c else upper_char c) # title_from True cs
      else if c \<in> set ''ABCDEFGHIJKLMNOPQRSTUVWXYZ''
      then (if previous_is_cased then lower_char c else c) # title_from True cs
      else c # title_from False cs)"

definition py_title :: "string \<Rightarrow> string" where
  "py_title s = title_from False s"

text \<open>\<^verbatim>\<open>s.find(c)\<close>: the index of the first occurrence, or -1.\<close>

definition py_find :: "string \<Rightarrow> char \<Rightarrow> int" where
  "py_find s c = (if c \<in> set s then int (length (takeWhile (\<lambda>x. x \<noteq> c) s)) else - 1)"

definition replace_html_tag :: "string \<Rightarrow> string \<Rightarrow> string \<Rightarrow> string" where
  "replace_html_tag text tag replace =
     (let start_tag = ''<'' @ tag @ ''>'';
          end_tag = ''</'' @ tag @ ''>'';
          text' = py_replace text start_tag replace
      in py_replace text' end_tag replace)"

text \<open>
  The loop \<^verbatim>\<open>while pos != -1\<close> of \<^verbatim>\<open>replace_spell_power_char\<close>. The Python literal
  \<^verbatim>\<open>"\*"\<close> is a backslash and an asterisk. Every turn removes the first \<open>$\<close> and adds
  none, which is why the loop ends.
\<close>

function replace_spell_power_char :: "string \<Rightarrow> string" where
  "replace_spell_power_char text =
     (let pos = py_find text CHR ''$'' in
      if pos \<noteq> - 1
      then replace_spell_power_char
             (take (nat pos) text @ [CHR 0x5C, CHR ''*''] @ take 1 (drop (nat pos + 1) text)
              @ [CHR 0x5C, CHR ''*'', CHR '' ''] @ drop (nat pos + 3) text)
      else text)"
  by pat_completeness auto
termination
proof (relation "measure (\<lambda>text. length (filter (\<lambda>x. x = CHR ''$'') text))")
  show "wf (measure (\<lambda>text. length (filter (\<lambda>x. x = CHR ''$'') text)))"
    by simp
next
  fix t :: string and pos :: int
  assume pos: "pos = py_find t CHR ''$''" and found: "pos \<noteq> - 1"
  let ?D = "\<lambda>x. x = CHR ''$''"
  define a where "a = takeWhile (\<lambda>x. x \<noteq> CHR ''$'') t"
  define b where "b = dropWhile (\<lambda>x. x \<noteq> CHR ''$'') t"
  from pos found have mem: "CHR ''$'' \<in> set t" and n: "nat pos = length a"
    by (auto simp: py_find_def a_def split: if_splits)
  have t: "t = a @ b"
    by (simp add: a_def b_def)
  from mem have "b \<noteq> []"
    by (auto simp: b_def dropWhile_eq_Nil_conv)
  moreover from this have "hd b = CHR ''$''"
    using hd_dropWhile [of "\<lambda>x. x \<noteq> CHR ''$''" t] by (simp add: b_def)
  ultimately obtain X where b: "b = CHR ''$'' # X"
    by (cases b) auto
  have a: "filter ?D a = []"
    by (auto simp: a_def filter_empty_conv dest: set_takeWhileD)
  have "X = take 1 X @ take 1 (drop 1 X) @ drop 2 X"
    by (metis append_take_drop_id drop_drop one_add_one)
  then have "length (filter ?D X)
      = length (filter ?D (take 1 X)) + length (filter ?D (take 1 (drop 1 X))) + length (filter ?D (drop 2 X))"
    by (metis add.assoc filter_append length_append)
  then have after: "length (filter ?D (take 1 X)) + length (filter ?D (drop 2 X)) \<le> length (filter ?D X)"
    by simp
  have new: "take (nat pos) t @ [CHR 0x5C, CHR ''*''] @ take 1 (drop (nat pos + 1) t)
          @ [CHR 0x5C, CHR ''*'', CHR '' ''] @ drop (nat pos + 3) t
     = a @ [CHR 0x5C, CHR ''*''] @ take 1 X @ [CHR 0x5C, CHR ''*'', CHR '' ''] @ drop 2 X"
    unfolding n t b by simp
  have "length (filter ?D (a @ [CHR 0x5C, CHR ''*''] @ take 1 X @ [CHR 0x5C, CHR ''*'', CHR '' ''] @ drop 2 X))
      < length (filter ?D t)"
    using a after unfolding t b by simp
  then show "(take (nat pos) t @ [CHR 0x5C, CHR ''*''] @ take 1 (drop (nat pos + 1) t)
          @ [CHR 0x5C, CHR ''*'', CHR '' ''] @ drop (nat pos + 3) t, t)
        \<in> measure (\<lambda>text. length (filter (\<lambda>x. x = CHR ''$'') text))"
    unfolding new by simp
qed

declare replace_spell_power_char.simps [simp del]

text \<open>
  \<^verbatim>\<open>_format_card(card)\<close> rewrites the card in place; the model returns the rewritten
  card. The text goes through the spell-power loop, the flavor does not.
\<close>

definition format_card :: "card \<Rightarrow> py_error + card" where
  "format_card c0 =
     (let c1 = (case card_text c0 of
                  None \<Rightarrow> c0
                | Some text \<Rightarrow>
                    (let text1 = replace_spell_power_char text;
                         text2 = replace_html_tag text1 ''b'' ''**'';
                         text3 = replace_html_tag text2 ''i'' ''*'';
                         text4 = py_replace text3 ''\<newline>'' '' ''
                     in c0\<lparr>card_text := Some text4\<rparr>));
          c2 = (case card_flavor c1 of
                  None \<Rightarrow> c1
                | Some text \<Rightarrow>
                    (let text1 = replace_html_tag text ''b'' ''**'';
                         text2 = replace_html_tag text1 ''i'' ''*'';
                         text3 = py_replace text2 ''\<newline>'' '' ''
                     in c1\<lparr>card_flavor := Some text3\<rparr>))
      in case card_type c2 of
           None \<Rightarrow> Inl KeyError
         | Some t \<Rightarrow>
             (let c3 = (if t = CardType_MINION
                        then (if card_playerClass c2 = None \<and> card_collectible c2 \<noteq> None
                              then c2\<lparr>card_playerClass := Some ''Neutral''\<rparr> else c2)
                        else c2);
                  c4 = (case card_playerClass c3 of
                          None \<Rightarrow> c3
                        | Some pc \<Rightarrow> c3\<lparr>card_playerClass := Some (py_title pc)\<rparr>);
                  c5 = (case card_set c4 of
                          None \<Rightarrow> c4
                        | Some cset \<Rightarrow>
                            if cset = CardSet_BASIC then c4\<lparr>card_set := Some ''Basic''\<rparr>
                            else if cset = CardSet_CLASSIC then c4\<lparr>card_set := Some ''Classic''\<rparr>
                            else c4)
              in Inr c5))"

text \<open>\<^verbatim>\<open>xs.remove(x)\<close> removes the first element equal to \<open>x\<close> and raises when there is none.\<close>

definition list_remove :: "'a list \<Rightarrow> 'a \<Rightarrow> py_error + 'a list" where
  "list_remove xs x = (if x \<in> set xs then Inr (remove1 x xs) else Inl ValueError)"

definition default_unwanted_sets :: "string list" where
  "default_unwanted_sets =
     [CardSet_CHEAT, CardSet_CREDITS, CardSet_HERO_SKINS, CardSet_MISSIONS, CardSet_NONE,
      CardSet_TAVERNBRAWL]"

text \<open>
  \<^verbatim>\<open>for card in cards_copy\<close>: the loop runs over the deep copy and removes from
  \<^verbatim>\<open>cards\<close>.
\<close>

fun clean_loop :: "card list \<Rightarrow> string list \<Rightarrow> card list \<Rightarrow> py_error + card list" where
  "clean_loop [] unwanted_sets cards = Inr cards"
| "clean_loop (c # cards_copy) unwanted_sets cards =
     (case card_type c of
        None \<Rightarrow> Inl KeyError
      | Some type \<Rightarrow>
          (case card_set c of
             None \<Rightarrow> Inl KeyError
           | Some cset \<Rightarrow>
               if cset \<in> set unwanted_sets
               then (case list_remove cards c of
                       Inl e \<Rightarrow> Inl e
                     | Inr cards' \<Rightarrow> clean_loop cards_copy unwanted_sets cards')
               else if type \<notin> set [CardType_MINION, CardType_SPELL, CardType_WEAPON]
               then (case list_remove cards c of
                       Inl e \<Rightarrow> Inl e
                     | Inr cards' \<Rightarrow> clean_loop cards_copy unwanted_sets cards')
               else clean_loop cards_copy unwanted_sets cards))"

text \<open>\<^verbatim>\<open>for card in cards: self._format_card(card)\<close>\<close>

fun format_loop :: "card list \<Rightarrow> py_error + card list" where
  "format_loop [] = Inr []"
| "format_loop (c # cards) =
     (case format_card c of
        Inl e \<Rightarrow> Inl e
      | Inr c' \<Rightarrow> (case format_loop cards of Inl e \<Rightarrow> Inl e | Inr cards' \<Rightarrow> Inr (c' # cards')))"

text \<open>
  \<^verbatim>\<open>_clean_cards_dict(cards, unwanted_sets=None)\<close> changes the list \<^verbatim>\<open>cards\<close> in
  place; the model returns the list as the call leaves it.
\<close>

definition clean_cards_dict :: "card list \<Rightarrow> string list option \<Rightarrow> py_error + card list" where
  "clean_cards_dict cards unwanted_sets0 =
     (let cards_copy = cards;
          unwanted_sets = (case unwanted_sets0 of None \<Rightarrow> default_unwanted_sets | Some u \<Rightarrow> u)
      in case clean_loop cards_copy unwanted_sets cards of
           Inl e \<Rightarrow> Inl e
         | Inr cards' \<Rightarrow> format_loop cards')"

subsection \<open>The index invariant and the normal form of the specification\<close>

text \<open>
  A card may be in the index when its type is Minion, Spell or Weapon and its set is not
  in the excluded-set list. A text is free of markup when it has no newline and none of
  the bold and italic pseudo-tags.
\<close>

definition indexable :: "card \<Rightarrow> bool" where
  "indexable c =
     (case (card_type c, card_set c) of
        (Some t, Some s) \<Rightarrow>
          t \<in> set [CardType_MINION, CardType_SPELL, CardType_WEAPON]
          \<and> s \<notin> set default_unwanted_sets
      | _ \<Rightarrow> False)"


text \<open>The rewriting of the flavor, and of the text, as \<^verbatim>\<open>_format_card\<close> composes them.\<close>

definition normalize_tags :: "string \<Rightarrow> string" where
  "normalize_tags t =
     py_replace (replace_html_tag (replace_html_tag t ''b'' ''**'') ''i'' ''*'') ''\<newline>'' '' ''"

definition normalize_text :: "string \<Rightarrow> string" where
  "normalize_text t = normalize_tags (replace_spell_power_char t)"

definition display_set :: "string \<Rightarrow> string" where
  "display_set s =
     (if s = CardSet_BASIC then ''Basic'' else if s = CardSet_CLASSIC then ''Classic'' else s)"

subsection \<open>The replacements of the specification\<close>

text \<open>
  The specification describes the normal form by what happens to each marker, not by a
  sequence of passes over the text. \<open>spec_substitute\<close> reads the text once, from left to
  right: where a pattern of the rule list starts, its replacement is written and the
  pattern is skipped (\<open>drop (length old - 1) cs\<close> drops the rest of the pattern after its
  first character \<open>c\<close>); any other character is copied.
\<close>

fun match_rule :: "(string \<times> string) list \<Rightarrow> string \<Rightarrow> (string \<times> string) option" where
  "match_rule [] s = None"
| "match_rule ((old, new) # rules) s =
     (if old \<noteq> [] \<and> prefix old s then Some (old, new) else match_rule rules s)"




text \<open>
  A \<open>$\<close> marker is the \<open>$\<close>, the character after it and one more character: they become
  the first of the two between two \<^verbatim>\<open>\*\<close>, and a space.
\<close>

fun spec_spell_power :: "string \<Rightarrow> string" where
  "spec_spell_power [] = []"
| "spec_spell_power (c # cs) =
     (if c = CHR ''$''
      then [CHR 0x5C, CHR ''*''] @ take 1 cs @ [CHR 0x5C, CHR ''*'', CHR '' '']
           @ spec_spell_power (drop 2 cs)
      else c # spec_spell_power cs)"

section \<open>Loading the dataset: \<^verbatim>\<open>_set_cards\<close>\<close>

text \<open>
  The file system and the remote server are the environment. \<open>stat_mtime\<close> is the
  modification time that \<^verbatim>\<open>os.stat(cards_path)\<close> returns, \<open>None\<close> when it raises;
  \<open>local_file\<close> is what opening and parsing \<^verbatim>\<open>cards.json\<close> gives (the exception, or the
  parsed value, \<open>None\<close> for the JSON value \<^verbatim>\<open>null\<close>); \<open>head_reply\<close> and \<open>get_reply\<close>
  are the outcomes of the two requests; \<open>io_log\<close> records the operations performed, in
  order. Times are rationals (every float is one). Writing the file is taken to succeed.
\<close>

datatype head_reply =
    HeadRaises \<comment> \<open>\<^verbatim>\<open>requests.head\<close> or \<^verbatim>\<open>raise_for_status\<close> raises\<close>
  | HeadNoDate \<comment> \<open>the reply has no \<^verbatim>\<open>Last-Modified\<close> header\<close>
  | HeadDate string "rat option"
      \<comment> \<open>the header, and the timestamp \<^verbatim>\<open>strptime\<close> gives for it, \<open>None\<close> when it raises\<close>

datatype py_time = PyNum rat | PyStr string

datatype io_event = StatLocal | HeadRemote | GetRemote | ReadLocal | WriteLocal

record 'd world =
  stat_mtime :: "rat option"
  local_file :: "py_error + 'd option"
  head_reply :: head_reply
  get_reply :: "py_error + 'd option"
  clock :: rat
  io_log :: "io_event list"

text \<open>
  \<^verbatim>\<open>_get_server_mod_time\<close>: the variable \<^verbatim>\<open>time\<close> starts as 0, becomes the header
  string, then the timestamp; an exception anywhere leaves it as it is at that point.
\<close>

definition get_server_mod_time :: "'d world \<Rightarrow> py_time \<times> 'd world" where
  "get_server_mod_time w =
     (case head_reply w of
        HeadRaises \<Rightarrow> PyNum 0
      | HeadNoDate \<Rightarrow> PyNum 0
      | HeadDate header None \<Rightarrow> PyStr header
      | HeadDate header (Some timestamp) \<Rightarrow> PyNum timestamp,
      w\<lparr>io_log := io_log w @ [HeadRemote]\<rparr>)"

text \<open>\<^verbatim>\<open>_download_card_json\<close>: \<^verbatim>\<open>cards\<close> starts as \<^verbatim>\<open>None\<close>; an exception is printed.\<close>

definition download_card_json :: "'d world \<Rightarrow> 'd option \<times> 'd world" where
  "download_card_json w =
     (case get_reply w of Inl e \<Rightarrow> None | Inr cards \<Rightarrow> cards,
      w\<lparr>io_log := io_log w @ [GetRemote]\<rparr>)"

definition load_card_json :: "'d world \<Rightarrow> (py_error + 'd option) \<times> 'd world" where
  "load_card_json w = (local_file w, w\<lparr>io_log := io_log w @ [ReadLocal]\<rparr>)"

definition save_card_json :: "'d option \<Rightarrow> 'd world \<Rightarrow> 'd world" where
  "save_card_json cards w =
     w\<lparr>local_file := Inr cards, stat_mtime := Some (clock w), io_log := io_log w @ [WriteLocal]\<rparr>"

text \<open>
  \<^verbatim>\<open>_set_cards\<close>. The comparison \<^verbatim>\<open>server_time > local_time\<close> of a string and a number
  raises \<^verbatim>\<open>TypeError\<close>.
\<close>

definition set_cards :: "'d world \<Rightarrow> (py_error + 'd option) \<times> 'd world" where
  "set_cards w0 =
     (let local_time = (case stat_mtime w0 of None \<Rightarrow> 0 | Some mtime \<Rightarrow> mtime);
          w1 = w0\<lparr>io_log := io_log w0 @ [StatLocal]\<rparr>;
          (server_time, w2) = get_server_mod_time w1
      in case server_time of
           PyStr header \<Rightarrow> (Inl TypeError, w2)
         | PyNum t \<Rightarrow>
             if t > local_time
             then (let (cards, w3) = download_card_json w2;
                       w4 = save_card_json cards w3
                   in (Inr cards, w4))
             else load_card_json w2)"

subsection \<open>The times of the specification\<close>

text \<open>The local and the remote modification time, 0 when unavailable.\<close>

definition spec_local_time :: "'d world \<Rightarrow> rat" where
  "spec_local_time w = (case stat_mtime w of None \<Rightarrow> 0 | Some t \<Rightarrow> t)"

definition spec_remote_time :: "'d world \<Rightarrow> rat" where
  "spec_remote_time w = (case head_reply w of HeadDate header (Some t) \<Rightarrow> t | _ \<Rightarrow> 0)"

section \<open>The lookup on a heap\<close>

text \<open>
  \<^verbatim>\<open>_find_card\<close> works on objects that are shared: \<^verbatim>\<open>self.cards\<close> is a list object
  whose elements refer to dict objects, \<^verbatim>\<open>results.append([card, percent_match])\<close> stores
  a reference to the card dict, not a copy of it, and \<^verbatim>\<open>results.sort\<close> writes into the
  list object \<^verbatim>\<open>results\<close>. The heap is the list of the objects allocated so far, an
  address is an index into it, and a new object is put at the end. The strings and numbers
  in a card dict are immutable values and stay inside the record \<open>card\<close>; a list cell holds
  a reference or a float.
\<close>

type_synonym addr = nat

datatype pyval = Ref addr | Float rat

text \<open>
  \<open>Instance a\<close> is the object \<^verbatim>\<open>self\<close>, whose attribute \<^verbatim>\<open>cards\<close> refers to the object
  at \<open>a\<close>.
\<close>

datatype pyobj = Dict card | PyList "pyval list" | Instance addr

type_synonym heap = "pyobj list"

definition alloc :: "pyobj \<Rightarrow> heap \<Rightarrow> addr \<times> heap" where
  "alloc obj h = (length h, h @ [obj])"

text \<open>
  Reading an object as a list, as a dict or as the cog. An object of another kind makes
  the operations of the source raise; they are all \<open>TypeError\<close> here, and so is an address
  with no object, which a Python state does not have.
\<close>

definition heap_list :: "heap \<Rightarrow> addr \<Rightarrow> pyval list option" where
  "heap_list h a =
     (if a < length h then (case h ! a of PyList vs \<Rightarrow> Some vs | _ \<Rightarrow> None) else None)"

definition heap_dict :: "heap \<Rightarrow> addr \<Rightarrow> card option" where
  "heap_dict h a =
     (if a < length h then (case h ! a of Dict c \<Rightarrow> Some c | _ \<Rightarrow> None) else None)"

definition heap_instance :: "heap \<Rightarrow> addr \<Rightarrow> addr option" where
  "heap_instance h a =
     (if a < length h then (case h ! a of Instance cards \<Rightarrow> Some cards | _ \<Rightarrow> None) else None)"

text \<open>
  \<^verbatim>\<open>for card in self.cards\<close>: the iterator holds the list object and an index \<open>i\<close>, and
  reads the list again at every step, so the loop is not bounded by the list it started
  with. \<^verbatim>\<open>results.append([card, percent_match])\<close> allocates the two-element list and
  writes the longer list into the object \<^verbatim>\<open>results\<close>. The result is the exception
  raised, if any, and the heap.
\<close>

partial_function (option) find_card_heap_loop ::
  "heap \<Rightarrow> addr \<Rightarrow> nat \<Rightarrow> addr \<Rightarrow> string \<Rightarrow> rat \<Rightarrow> (py_error option \<times> heap) option" where
  "find_card_heap_loop h cards i results query min_match =
     (case heap_list h cards of
        None \<Rightarrow> Some (Some TypeError, h)
      | Some cs \<Rightarrow>
          if length cs \<le> i then Some (None, h)
          else (case cs ! i of
                  Float x \<Rightarrow> Some (Some TypeError, h)
                | Ref r \<Rightarrow>
                    (case heap_dict h r of
                       None \<Rightarrow> Some (Some TypeError, h)
                     | Some c \<Rightarrow>
                         (case card_percent_match query c of
                            Inl e \<Rightarrow> Some (Some e, h)
                          | Inr percent_match \<Rightarrow>
                              if percent_match \<ge> min_match then
                                (case heap_list h results of
                                   None \<Rightarrow> Some (Some TypeError, h)
                                 | Some rs \<Rightarrow>
                                     (case alloc (PyList [Ref r, Float percent_match]) h of
                                        (entry, h1) \<Rightarrow>
                                          find_card_heap_loop
                                            (h1[results := PyList (rs @ [Ref entry])])
                                            cards (Suc i) results query min_match))
                              else find_card_heap_loop h cards (Suc i) results query
                                     min_match))))"

declare find_card_heap_loop.simps [code]

text \<open>
  \<^verbatim>\<open>results.sort(key=lambda r: r[1], reverse=True)\<close>: the keys \<^verbatim>\<open>r[1]\<close> are read from
  the elements first, then the list object is overwritten with its elements in the order
  of descending keys, elements with equal keys in the order they had.
\<close>

fun sort_keys :: "heap \<Rightarrow> pyval list \<Rightarrow> py_error + rat list" where
  "sort_keys h [] = Inr []"
| "sort_keys h (v # vs) =
     (case v of
        Float x \<Rightarrow> Inl TypeError
      | Ref e \<Rightarrow>
          (case heap_list h e of
             None \<Rightarrow> Inl TypeError
           | Some entry \<Rightarrow>
               if length entry \<le> 1 then Inl IndexError
               else (case entry ! 1 of
                       Ref x \<Rightarrow> Inl TypeError
                     | Float k \<Rightarrow>
                         (case sort_keys h vs of
                            Inl err \<Rightarrow> Inl err
                          | Inr ks \<Rightarrow> Inr (k # ks)))))"

definition list_sort_heap :: "heap \<Rightarrow> addr \<Rightarrow> py_error option \<times> heap" where
  "list_sort_heap h a =
     (case heap_list h a of
        None \<Rightarrow> (Some TypeError, h)
      | Some rs \<Rightarrow>
          (case sort_keys h rs of
             Inl err \<Rightarrow> (Some err, h)
           | Inr ks \<Rightarrow>
               (None, h[a := PyList (map fst (sort_key (\<lambda>p. - snd p) (zip rs ks)))])))"

text \<open>\<^verbatim>\<open>results[0][0]\<close>\<close>

definition first_of_first :: "heap \<Rightarrow> addr \<Rightarrow> py_error + pyval" where
  "first_of_first h a =
     (case heap_list h a of
        None \<Rightarrow> Inl TypeError
      | Some rs \<Rightarrow>
          (case rs of
             [] \<Rightarrow> Inl IndexError
           | Float x # _ \<Rightarrow> Inl TypeError
           | Ref e # _ \<Rightarrow>
               (case heap_list h e of
                  None \<Rightarrow> Inl TypeError
                | Some [] \<Rightarrow> Inl IndexError
                | Some (v # _) \<Rightarrow> Inr v)))"

text \<open>
  \<^verbatim>\<open>_find_card(self, query, min_match)\<close> on the heap \<open>h0\<close>, with \<open>self\<close> the address of
  the cog: the value returned (\<open>None\<close> is Python's \<^verbatim>\<open>None\<close>) or the exception raised, and
  the heap the call leaves. The outer \<open>None\<close> is a call that does not return.
\<close>

definition find_card_heap ::
  "heap \<Rightarrow> addr \<Rightarrow> string \<Rightarrow> rat \<Rightarrow> ((py_error + pyval option) \<times> heap) option" where
  "find_card_heap h0 self query0 min_match =
     (case alloc (PyList []) h0 of
        (results, h) \<Rightarrow>
          (let query = py_lower (py_strip CHR '' '' query0) in
           if length query < 1 then Some (Inr None, h)
           else (case heap_instance h self of
                   None \<Rightarrow> Some (Inl TypeError, h)
                 | Some cards \<Rightarrow>
                     (case find_card_heap_loop h cards 0 results query min_match of
                        None \<Rightarrow> None
                      | Some (Some err, h') \<Rightarrow> Some (Inl err, h')
                      | Some (None, h') \<Rightarrow>
                          (case heap_list h' results of
                             None \<Rightarrow> Some (Inl TypeError, h')
                           | Some rs \<Rightarrow>
                               if length rs < 1 then Some (Inr None, h')
                               else (case list_sort_heap h' results of
                                       (Some err, h'') \<Rightarrow> Some (Inl err, h'')
                                     | (None, h'') \<Rightarrow>
                                         (case first_of_first h'' results of
                                            Inl err \<Rightarrow> Some (Inl err, h'')
                                          | Inr v \<Rightarrow> Some (Inr (Some v), h''))))))))"

text \<open>
  The card collection of the cog in a heap: the card dicts that the elements of
  \<^verbatim>\<open>self.cards\<close> refer to, in the order of the list, with all their fields.
\<close>

fun deref_cards :: "heap \<Rightarrow> pyval list \<Rightarrow> card list option" where
  "deref_cards h [] = Some []"
| "deref_cards h (v # vs) =
     (case v of
        Float x \<Rightarrow> None
      | Ref r \<Rightarrow>
          (case heap_dict h r of
             None \<Rightarrow> None
           | Some c \<Rightarrow> map_option ((#) c) (deref_cards h vs)))"

definition heap_cards :: "heap \<Rightarrow> addr \<Rightarrow> card list option" where
  "heap_cards h self =
     (case heap_instance h self of
        None \<Rightarrow> None
      | Some cards \<Rightarrow>
          (case heap_list h cards of
             None \<Rightarrow> None
           | Some vs \<Rightarrow> deref_cards h vs))"

subsection \<open>Auxiliary notions for the proofs on the heap\<close>

text \<open>
  The card a value refers to, and the relation between an element of \<^verbatim>\<open>results\<close> in
  the heap and a pair of the list \<open>results\<close> of \<open>find_card_loop\<close>: the element is a
  two-element list of a reference to the card dict, taken from the list \<open>vs\<close>, and the
  score.
\<close>

definition val_card :: "heap \<Rightarrow> pyval \<Rightarrow> card option" where
  "val_card h v = (case v of Ref r \<Rightarrow> heap_dict h r | Float x \<Rightarrow> None)"

definition entry_rel :: "heap \<Rightarrow> addr \<Rightarrow> pyval list \<Rightarrow> pyval \<Rightarrow> card \<times> rat \<Rightarrow> bool" where
  "entry_rel h results vs v p =
     (\<exists>e r. v = Ref e \<and> e \<noteq> results \<and> heap_list h e = Some [Ref r, Float (snd p)]
          \<and> heap_dict h r = Some (fst p) \<and> Ref r \<in> set vs)"

section \<open>Properties of the edit distance\<close>

lemma lev_Nil2: "lev xs [] = length xs"
  by (cases xs) simp_all

lemma lev_sym: "lev xs ys = lev ys xs"
proof (induction xs ys rule: lev.induct)
  case (3 x xs y ys)
  then show ?case by (simp add: min.commute min.left_commute eq_commute [of x y])
qed (simp_all add: lev_Nil2)

lemma lev_same: "lev xs xs = 0"
  by (induction xs) simp_all

lemma lev_Cons1_le: "lev (c # v) z \<le> Suc (lev v z)"
  by (cases z) (simp_all add: lev_Nil2)

lemma lev_Cons2_le: "lev v (c # z) \<le> Suc (lev v z)"
  using lev_Cons1_le [of c z v] by (simp add: lev_sym)

lemma lev_drop1_le: "lev v z \<le> Suc (lev (c # v) z)"
proof (induction z)
  case Nil
  then show ?case by (simp add: lev_Nil2)
next
  case (Cons b z)
  have "lev v (b # z) \<le> Suc (lev v z)" by (rule lev_Cons2_le)
  with Cons show ?case unfolding lev.simps by linarith
qed

lemma lev_subst_le: "lev (c # v) z \<le> Suc (lev (d # v) z)"
proof (induction z)
  case Nil
  then show ?case by simp
next
  case (Cons b z)
  then show ?case unfolding lev.simps by (cases "c = b"; cases "d = b"; simp; linarith)
qed

lemma lev_context:
  assumes "\<And>z. lev x z \<le> Suc (lev y z)"
  shows "lev (a # x) z \<le> Suc (lev (a # y) z)"
proof (induction z)
  case Nil
  from assms [of "[]"] show ?case by (simp add: lev_Nil2)
next
  case (Cons b z)
  from assms [of "b # z"] assms [of z] Cons show ?case
    unfolding lev.simps by (cases "a = b"; simp; linarith)
qed

lemma lev_insert_le: "lev (u @ v) z \<le> Suc (lev (u @ c # v) z)"
proof (induction u arbitrary: z)
  case Nil
  then show ?case by (simp add: lev_drop1_le)
next
  case (Cons a u)
  then show ?case by (simp add: lev_context)
qed

lemma lev_delete_le: "lev (u @ c # v) z \<le> Suc (lev (u @ v) z)"
proof (induction u arbitrary: z)
  case Nil
  then show ?case by (simp add: lev_Cons1_le)
next
  case (Cons a u)
  then show ?case by (simp add: lev_context)
qed

lemma lev_substitute_le: "lev (u @ c # v) z \<le> Suc (lev (u @ d # v) z)"
proof (induction u arbitrary: z)
  case Nil
  then show ?case by (simp add: lev_subst_le)
next
  case (Cons a u)
  then show ?case by (simp add: lev_context)
qed

lemma edit_step_lev: "edit_step x y \<Longrightarrow> lev x z \<le> Suc (lev y z)"
  by (induction rule: edit_step.induct)
     (simp_all add: lev_insert_le lev_delete_le lev_substitute_le)

lemma edit_step_sym: "edit_step x y \<Longrightarrow> edit_step y x"
proof (induction rule: edit_step.induct)
  case (insert_char u v c)
  show ?case by (rule edit_step.delete_char)
next
  case (delete_char u c v)
  show ?case by (rule edit_step.insert_char)
next
  case (substitute_char u c v d)
  show ?case by (rule edit_step.substitute_char)
qed

lemma edit_path_lev: "(edit_step ^^ n) a b \<Longrightarrow> lev a b \<le> n"
proof (induction n arbitrary: b)
  case 0
  then show ?case by (simp add: lev_same)
next
  case (Suc n)
  then obtain m where am: "(edit_step ^^ n) a m" and mb: "edit_step m b"
    by auto
  from mb have "lev b a \<le> Suc (lev m a)"
    by (rule edit_step_lev [OF edit_step_sym])
  with Suc.IH [OF am] show ?case
    by (simp add: lev_sym)
qed

lemma edit_step_Cons: "edit_step x y \<Longrightarrow> edit_step (c # x) (c # y)"
proof (induction rule: edit_step.induct)
  case (insert_char u v d)
  from edit_step.insert_char [of "c # u" v d] show ?case by simp
next
  case (delete_char u d v)
  from edit_step.delete_char [of "c # u" d v] show ?case by simp
next
  case (substitute_char u d v e)
  from edit_step.substitute_char [of "c # u" d v e] show ?case by simp
qed

lemma edit_path_Cons: "(edit_step ^^ n) x y \<Longrightarrow> (edit_step ^^ n) (c # x) (c # y)"
proof (induction n arbitrary: y)
  case 0
  then show ?case by simp
next
  case (Suc n)
  then obtain m where "(edit_step ^^ n) x m" and "edit_step m y"
    by auto
  with Suc.IH [of m] show ?case
    by (auto intro: edit_step_Cons)
qed

lemma edit_step_head_insert: "edit_step v (c # v)"
  using edit_step.insert_char [of "[]" v c] by simp

lemma edit_step_head_delete: "edit_step (c # v) v"
  using edit_step.delete_char [of "[]" c v] by simp

lemma edit_step_head_substitute: "edit_step (c # v) (d # v)"
  using edit_step.substitute_char [of "[]" c v d] by simp

lemma edit_path_from_Nil: "(edit_step ^^ length ys) [] ys"
proof (induction ys)
  case Nil
  then show ?case by simp
next
  case (Cons y ys)
  then show ?case
    using edit_step_head_insert [of ys y] by auto
qed

lemma edit_path_to_Nil: "(edit_step ^^ length xs) xs []"
proof (induction xs)
  case Nil
  then show ?case by simp
next
  case (Cons x xs)
  from relpowp_Suc_I2 [OF edit_step_head_delete Cons] show ?case by simp
qed

lemma lev_edit_path: "(edit_step ^^ lev xs ys) xs ys"
proof (induction xs ys rule: lev.induct)
  case (1 ys)
  then show ?case by (simp add: edit_path_from_Nil)
next
  case (2 x xs)
  from edit_path_to_Nil [of "x # xs"] show ?case by simp
next
  case (3 x xs y ys)
  let ?d = "lev xs (y # ys) + 1"
  let ?i = "lev (x # xs) ys + 1"
  let ?s = "lev xs ys + (if x = y then 0 else 1)"
  have del: "(edit_step ^^ ?d) (x # xs) (y # ys)"
    using relpowp_Suc_I2 [OF edit_step_head_delete "3.IH"(1)] by simp
  have ins: "(edit_step ^^ ?i) (x # xs) (y # ys)"
    using relpowp_Suc_I [OF "3.IH"(2) edit_step_head_insert] by simp
  have sub: "(edit_step ^^ ?s) (x # xs) (y # ys)"
  proof (cases "x = y")
    case True
    with edit_path_Cons [OF "3.IH"(3)] show ?thesis by simp
  next
    case False
    with relpowp_Suc_I2 [OF edit_step_head_substitute edit_path_Cons [OF "3.IH"(3)]]
    show ?thesis by simp
  qed
  have "lev (x # xs) (y # ys) = ?d \<or> lev (x # xs) (y # ys) = ?i \<or> lev (x # xs) (y # ys) = ?s"
    by (simp add: min_def)
  with del ins sub show ?case by metis
qed

lemma edit_distance_lev: "edit_distance a b = lev a b"
  unfolding edit_distance_def
  by (rule Least_equality) (auto intro: lev_edit_path edit_path_lev)

lemma edit_step_rev: "edit_step x y \<Longrightarrow> edit_step (rev x) (rev y)"
proof (induction rule: edit_step.induct)
  case (insert_char u v c)
  from edit_step.insert_char [of "rev v" "rev u" c] show ?case by simp
next
  case (delete_char u c v)
  from edit_step.delete_char [of "rev v" c "rev u"] show ?case by simp
next
  case (substitute_char u c v d)
  from edit_step.substitute_char [of "rev v" c "rev u" d] show ?case by simp
qed

lemma edit_path_rev: "(edit_step ^^ n) x y \<Longrightarrow> (edit_step ^^ n) (rev x) (rev y)"
proof (induction n arbitrary: y)
  case 0
  then show ?case by simp
next
  case (Suc n)
  then obtain m where "(edit_step ^^ n) x m" and "edit_step m y"
    by auto
  with Suc.IH [of m] show ?case
    by (auto intro: edit_step_rev)
qed

lemma lev_rev: "lev (rev a) (rev b) = lev a b"
proof (rule antisym)
  show "lev (rev a) (rev b) \<le> lev a b"
    by (rule edit_path_lev [OF edit_path_rev [OF lev_edit_path]])
  from edit_path_rev [OF lev_edit_path [of "rev a" "rev b"]]
  show "lev a b \<le> lev (rev a) (rev b)"
    by (auto intro: edit_path_lev)
qed

lemma inner_row_correct:
  assumes "previous_row = lev_row a (p @ r)"
    and "current_row = map (\<lambda>k. lev (c # a) (rev (take k (p @ r)))) [0..<length p + 1]"
  shows "inner_row c previous_row current_row (length p) r = lev_row (c # a) (p @ r)"
  using assms
proof (induction r arbitrary: p current_row)
  case Nil
  then show ?case by (simp add: lev_row_def)
next
  case (Cons c2 r)
  have ins: "previous_row ! (length p + 1) = lev a (c2 # rev p)"
    using Cons.prems(1) by (simp add: lev_row_def nth_append del: upt_Suc)
  have del: "current_row ! length p = lev (c # a) (rev p)"
    using Cons.prems(2) by (simp add: nth_append del: upt_Suc)
  have sub: "previous_row ! length p = lev a (rev p)"
    using Cons.prems(1) by (simp add: lev_row_def nth_append del: upt_Suc)
  have cell: "min (previous_row ! (length p + 1) + 1)
      (min (current_row ! length p + 1) (previous_row ! length p + (if c \<noteq> c2 then 1 else 0)))
    = lev (c # a) (rev (take (length p + 1) (p @ c2 # r)))"
    unfolding ins del sub by simp
  have row: "current_row @ [lev (c # a) (rev (take (length p + 1) (p @ c2 # r)))]
    = map (\<lambda>k. lev (c # a) (rev (take k ((p @ [c2]) @ r)))) [0..<length (p @ [c2]) + 1]"
    using Cons.prems(2) by simp
  have "inner_row c previous_row current_row (length p) (c2 # r)
    = inner_row c previous_row (current_row @ [lev (c # a) (rev (take (length p + 1) (p @ c2 # r)))])
        (length (p @ [c2])) r"
    using cell by (simp add: Let_def)
  also have "\<dots> = lev_row (c # a) ((p @ [c2]) @ r)"
    by (rule Cons.IH) (use Cons.prems(1) row in simp_all)
  finally show ?case by simp
qed

lemma lev_row_Nil: "lev_row [] s2 = [0..<length s2 + 1]"
  unfolding lev_row_def by (rule nth_equalityI) (simp_all add: nth_append del: upt_Suc)

lemma outer_rows_correct:
  "outer_rows (lev_row a s2) (length a) s1 s2 = lev_row (rev s1 @ a) s2"
proof (induction s1 arbitrary: a)
  case Nil
  then show ?case by simp
next
  case (Cons c1 s1)
  have "inner_row c1 (lev_row a s2) [length a + 1] (length ([]::'a list)) s2 = lev_row (c1 # a) ([] @ s2)"
    by (rule inner_row_correct) simp_all
  then have "outer_rows (lev_row a s2) (length a) (c1 # s1) s2
     = outer_rows (lev_row (c1 # a) s2) (length (c1 # a)) s1 s2"
    by simp
  also have "\<dots> = lev_row (rev s1 @ c1 # a) s2"
    by (rule Cons.IH)
  finally show ?case by simp
qed

lemma last_lev_row: "last (lev_row a s2) = lev a (rev s2)"
  by (simp add: lev_row_def)

lemma calc_levenshtein_distance_lev: "calc_levenshtein_distance s1 s2 = lev s1 s2"
proof (induction s1 s2 rule: calc_levenshtein_distance.induct)
  case (1 s1 s2)
  show ?case
  proof (cases "length s1 < length s2")
    case True
    with 1 show ?thesis
      by (subst calc_levenshtein_distance.simps) (simp add: lev_sym [of s1 s2])
  next
    case False
    show ?thesis
    proof (cases "length s2 = 0")
      case True
      with False show ?thesis
        by (subst calc_levenshtein_distance.simps) (simp add: lev_Nil2)
    next
      case nonempty: False
      have "outer_rows [0..<length s2 + 1] 0 s1 s2 = lev_row (rev s1) s2"
        using outer_rows_correct [of "[]" s2 s1] by (simp add: lev_row_Nil)
      with False nonempty show ?thesis
        by (subst calc_levenshtein_distance.simps) (simp add: last_lev_row lev_rev del: upt_Suc)
    qed
  qed
qed

text \<open>
  Claim C6: the distance function computes the Levenshtein edit distance, the least number
  of single-character insertions, deletions and substitutions that turn \<open>a\<close> into
  \<open>b\<close>; the distance of a string to itself is 0, the distance is symmetric, and the
  distance from the empty string to \<open>b\<close> is the length of \<open>b\<close>.
\<close>

theorem calc_levenshtein_distance_edit_distance:
  "calc_levenshtein_distance a b = edit_distance a b
   \<and> calc_levenshtein_distance a a = 0
   \<and> calc_levenshtein_distance a b = calc_levenshtein_distance b a
   \<and> calc_levenshtein_distance [] b = length b"
  using lev_sym [of a b]
  by (simp only: calc_levenshtein_distance_lev edit_distance_lev lev_same lev.simps)

lemma calc_levenshtein_distance_examples:
  "calc_levenshtein_distance ''kitten'' ''sitting'' = 3"
  "calc_levenshtein_distance ''ragnaros'' ''regnaros'' = 1"
  "calc_levenshtein_distance ''the'' ''firelord'' = 7"
  by code_simp+

section \<open>Properties of dictionaries filled from a list\<close>

lemma set_uniq [simp]: "set (uniq xs) = set xs"
  by (induction xs) auto

lemma distinct_uniq [simp]: "distinct (uniq xs)"
  by (induction xs) auto

lemma filter_uniq: "filter P (uniq xs) = uniq (filter P xs)"
proof (induction xs)
  case Nil
  then show ?case by simp
next
  case (Cons x xs)
  show ?case
  proof (cases "P x")
    case True
    have "filter P (filter (\<lambda>y. y \<noteq> x) (uniq xs)) = filter (\<lambda>y. y \<noteq> x) (filter P (uniq xs))"
      unfolding filter_filter by (intro filter_cong) auto
    with True show ?thesis
      by (simp add: Cons.IH)
  next
    case False
    have "filter P (filter (\<lambda>y. y \<noteq> x) (uniq xs)) = filter (\<lambda>y. y \<noteq> x) (filter P (uniq xs))"
      unfolding filter_filter by (intro filter_cong) auto
    moreover from False have "filter (\<lambda>y. y \<noteq> x) (uniq (filter P xs)) = uniq (filter P xs)"
      by (intro filter_True) auto
    ultimately show ?thesis
      using False by (simp add: Cons.IH)
  qed
qed

lemma hd_uniq: "hd (uniq xs) = hd xs"
  by (cases xs) simp_all

lemma uniq_eq_Nil [simp]: "uniq xs = [] \<longleftrightarrow> xs = []"
  by (cases xs) simp_all

lemma map_of_dict_set: "map_of (dict_set k v d) = (map_of d)(k \<mapsto> v)"
  by (induction d) (auto simp: fun_eq_iff)

lemma map_fst_dict_set:
  "map fst (dict_set k v d) = (if k \<in> fst ` set d then map fst d else map fst d @ [k])"
  by (induction d) force+

lemma dict_set_same: "map_of d k = Some v \<Longrightarrow> dict_set k v d = d"
  by (induction d) (auto split: if_splits)

lemma dict_set_twice: "dict_set k v (dict_set k v' d) = dict_set k v d"
  by (induction d) auto

lemma dict_set_graph:
  assumes "\<forall>e\<in>set d. snd e = f (fst e)"
  shows "dict_set k (f k) d = (if k \<in> fst ` set d then d else d @ [(k, f k)])"
  using assms by (induction d) force+

lemma dict_fill_Cons: "dict_fill f (k # ks) d = dict_fill f ks (dict_set k (f k) d)"
  by (simp add: dict_fill_def)

lemma dict_fill_graph:
  assumes "\<forall>e\<in>set d. snd e = f (fst e)"
  shows "dict_fill f ks d = d @ map (\<lambda>k. (k, f k)) (filter (\<lambda>y. y \<notin> fst ` set d) (uniq ks))"
  using assms
proof (induction ks arbitrary: d)
  case Nil
  then show ?case by (simp add: dict_fill_def)
next
  case (Cons k ks)
  show ?case
  proof (cases "k \<in> fst ` set d")
    case True
    then have "filter (\<lambda>y. y \<notin> fst ` set d) (filter (\<lambda>y. y \<noteq> k) (uniq ks))
        = filter (\<lambda>y. y \<notin> fst ` set d) (uniq ks)"
      unfolding filter_filter by (intro filter_cong) auto
    with True Cons.IH [OF Cons.prems] Cons.prems show ?thesis
      by (simp add: dict_fill_Cons dict_set_graph)
  next
    case False
    let ?d = "d @ [(k, f k)]"
    have inv: "\<forall>e\<in>set ?d. snd e = f (fst e)"
      using Cons.prems by auto
    have "filter (\<lambda>y. y \<notin> fst ` set ?d) (uniq ks)
        = filter (\<lambda>y. y \<notin> fst ` set d) (filter (\<lambda>y. y \<noteq> k) (uniq ks))"
      unfolding filter_filter by (intro filter_cong) auto
    with False Cons.IH [OF inv] Cons.prems show ?thesis
      by (simp add: dict_fill_Cons dict_set_graph)
  qed
qed

lemma dict_fill_empty: "dict_fill f ks [] = map (\<lambda>k. (k, f k)) (uniq ks)"
  using dict_fill_graph [of "[]" f ks] by simp

lemma init_search_words_fill: "init_search_words ws sw = dict_fill (\<lambda>_. []) ws sw"
  by (induction ws arbitrary: sw) (simp_all add: dict_fill_def)

lemma word_match_spec:
  "a \<noteq> [] \<or> b \<noteq> [] \<Longrightarrow> word_match a b = Inr (spec_similarity a b)"
  by (auto simp: word_match_def py_truediv_def spec_similarity_def)

lemma word_match_empty: "word_match [] [] = Inl ZeroDivisionError"
  by (simp add: word_match_def py_truediv_def)

section \<open>The loops of the score\<close>

lemma match_card_words_fill:
  assumes "map_of sw w = Some d" and "w \<noteq> [] \<or> [] \<notin> set cws"
  shows "match_card_words w cws sw = Inr (dict_set w (dict_fill (spec_similarity w) cws d) sw)"
  using assms
proof (induction cws arbitrary: sw d)
  case Nil
  then show ?case by (simp add: dict_fill_def dict_set_same)
next
  case (Cons cw cws)
  let ?d = "dict_set cw (spec_similarity w cw) d"
  let ?sw = "dict_set w ?d sw"
  from Cons.prems(2) have wm: "word_match w cw = Inr (spec_similarity w cw)"
    by (intro word_match_spec) auto
  have "map_of ?sw w = Some ?d"
    by (simp add: map_of_dict_set)
  moreover from Cons.prems(2) have "w \<noteq> [] \<or> [] \<notin> set cws"
    by auto
  ultimately have "match_card_words w cws ?sw
      = Inr (dict_set w (dict_fill (spec_similarity w) cws ?d) ?sw)"
    by (rule Cons.IH)
  with wm Cons.prems(1) show ?case
    by (simp add: dict_fill_Cons dict_set_twice)
qed

lemma match_search_words_fill:
  assumes "set ks \<subseteq> fst ` set sw" and "distinct ks"
    and "\<forall>w\<in>set ks. w \<noteq> [] \<or> [] \<notin> set cws"
  shows "\<exists>sw'. match_search_words ks cws sw = Inr sw'
           \<and> map fst sw' = map fst sw
           \<and> (\<forall>w. map_of sw' w =
                 (if w \<in> set ks
                  then Some (dict_fill (spec_similarity w) cws (the (map_of sw w)))
                  else map_of sw w))"
  using assms
proof (induction ks arbitrary: sw)
  case Nil
  then show ?case by simp
next
  case (Cons k ks)
  from Cons.prems(1) obtain d where d: "map_of sw k = Some d"
    by (cases "map_of sw k") (auto simp: map_of_eq_None_iff)
  let ?sw = "dict_set k (dict_fill (spec_similarity k) cws d) sw"
  from d Cons.prems(3) have step: "match_card_words k cws sw = Inr ?sw"
    by (intro match_card_words_fill) auto
  from Cons.prems(1) have keys: "map fst ?sw = map fst sw"
    by (simp add: map_fst_dict_set)
  then have "fst ` set ?sw = fst ` set sw"
    by (metis list.set_map)
  with Cons.prems have "set ks \<subseteq> fst ` set ?sw" "distinct ks"
      "\<forall>w\<in>set ks. w \<noteq> [] \<or> [] \<notin> set cws"
    by auto
  from Cons.IH [OF this] obtain sw' where
    sw': "match_search_words ks cws ?sw = Inr sw'" "map fst sw' = map fst ?sw"
      "\<And>w. map_of sw' w =
         (if w \<in> set ks
          then Some (dict_fill (spec_similarity w) cws (the (map_of ?sw w)))
          else map_of ?sw w)"
    by blast
  from Cons.prems(2) have "k \<notin> set ks" by simp
  with sw'(3) d have "\<forall>w. map_of sw' w =
         (if w \<in> set (k # ks)
          then Some (dict_fill (spec_similarity w) cws (the (map_of sw w)))
          else map_of sw w)"
    by (auto simp: map_of_dict_set)
  with step sw'(1,2) keys show ?case
    by simp
qed

lemma hd_filter_Cons_dup: "hd (filter P (b # b # ks)) = hd (filter P (b # ks))"
  by simp

lemma max_value_loop_first_max:
  "max_value_loop (map (\<lambda>k. (k, g k)) ks) (b, g b)
     = (let k = hd (filter (\<lambda>m. \<forall>t\<in>set (b # ks). g t \<le> g m) (b # ks)) in (k, g k))"
proof (induction ks arbitrary: b)
  case Nil
  then show ?case by simp
next
  case (Cons k ks)
  define P where "P = (\<lambda>m. \<forall>t\<in>set (b # k # ks). g t \<le> g m)"
  define Q where "Q = (\<lambda>m. \<forall>t\<in>set (b # ks). g t \<le> g m)"
  define R where "R = (\<lambda>m. \<forall>t\<in>set (k # ks). g t \<le> g m)"
  have IH_b: "max_value_loop (map (\<lambda>k. (k, g k)) ks) (b, g b) = (hd (filter Q (b # ks)), g (hd (filter Q (b # ks))))"
    unfolding Q_def using Cons.IH [of b] by (simp only: Let_def)
  have IH_k: "max_value_loop (map (\<lambda>k. (k, g k)) ks) (k, g k) = (hd (filter R (k # ks)), g (hd (filter R (k # ks))))"
    unfolding R_def using Cons.IH [of k] by (simp only: Let_def)
  have "max_value_loop (map (\<lambda>k. (k, g k)) (k # ks)) (b, g b) = (hd (filter P (b # k # ks)), g (hd (filter P (b # k # ks))))"
  proof (cases "g b < g k")
    case True
    then have "\<not> P b"
      by (auto simp: P_def)
    moreover have "filter P (k # ks) = filter R (k # ks)"
      using True by (intro filter_cong) (auto simp: P_def R_def intro: order_trans less_imp_le)
    ultimately have "filter P (b # k # ks) = filter R (k # ks)"
      by (simp del: filter.simps add: filter.simps(2) [of P b])
    with True IH_k show ?thesis
      by (simp del: filter.simps)
  next
    case False
    then have kb: "g k \<le> g b" by simp
    show ?thesis
    proof (cases "Q b")
      case True
      with kb have "P b" by (auto simp: P_def Q_def)
      with True False IH_b show ?thesis by simp
    next
      case notmax: False
      with kb have "\<not> P b" "\<not> P k"
        by (auto simp: P_def Q_def intro: order_trans)
      moreover have "filter P ks = filter Q ks"
        using kb by (intro filter_cong) (auto simp: P_def Q_def intro: order_trans)
      ultimately have "filter P (b # k # ks) = filter Q (b # ks)"
        using notmax by simp
      with False IH_b show ?thesis
        by (simp del: filter.simps)
    qed
  qed
  then show ?case
    unfolding P_def by (simp only: Let_def)
qed

section \<open>Properties of the string functions\<close>

lemma py_split_not_Nil [simp]: "py_split sep s \<noteq> []"
  by (induction s) (auto split: list.splits)

lemma py_replace_remove_char: "py_replace s [c] [] = filter (\<lambda>x. x \<noteq> c) s"
proof (induction s)
  case Nil
  then show ?case by (simp add: py_replace.simps)
next
  case (Cons x s)
  then show ?case by (subst py_replace.simps) simp
qed

lemma lower_char_space: "c \<noteq> CHR '' '' \<Longrightarrow> lower_char c \<noteq> CHR '' ''"
proof
  assume c: "c \<noteq> CHR '' ''" and l: "lower_char c = CHR '' ''"
  then obtain d where "map_of (zip ''ABCDEFGHIJKLMNOPQRSTUVWXYZ'' ''abcdefghijklmnopqrstuvwxyz'') c = Some d"
    and "d = CHR '' ''"
    unfolding lower_char_def by (auto split: option.splits)
  then have "CHR '' '' \<in> set ''abcdefghijklmnopqrstuvwxyz''"
    by (blast dest: map_of_SomeD set_zip_rightD)
  then show False by simp
qed

lemma stripped_query_has_letter:
  assumes "py_lower (py_strip CHR '' '' q0) \<noteq> []"
  shows "filter (\<lambda>c. c \<noteq> CHR '' '') (py_lower (py_strip CHR '' '' q0)) \<noteq> []"
proof -
  define u where "u = rev (dropWhile (\<lambda>x. x = CHR '' '') q0)"
  define t where "t = dropWhile (\<lambda>x. x = CHR '' '') u"
  have strip: "py_strip CHR '' '' q0 = rev t"
    by (simp add: py_strip_def t_def u_def)
  with assms have "t \<noteq> []"
    by (simp add: py_lower_def)
  then have "hd t \<noteq> CHR '' ''" and "hd t \<in> set t"
    using hd_dropWhile [of "\<lambda>x. x = CHR '' ''" u] by (auto simp: t_def)
  then have "lower_char (hd t) \<in> set (py_lower (py_strip CHR '' '' q0))"
      and "lower_char (hd t) \<noteq> CHR '' ''"
    by (auto simp: strip py_lower_def lower_char_space)
  then show ?thesis
    by (auto simp: filter_empty_conv)
qed

section \<open>The accumulated score\<close>

lemma first_max_exists:
  assumes "cws \<noteq> []"
  shows "filter (\<lambda>m. \<forall>t\<in>set cws. g t \<le> (g m :: rat)) cws \<noteq> []"
proof -
  have "Max (g ` set cws) \<in> g ` set cws"
    using assms by (intro Max_in) auto
  then obtain m where "m \<in> set cws" and "g m = Max (g ` set cws)"
    by auto
  then have "\<forall>t\<in>set cws. g t \<le> g m"
    by simp
  with \<open>m \<in> set cws\<close> show ?thesis
    by (auto simp: filter_empty_conv)
qed

lemma first_max_is_Max:
  fixes g :: "'a \<Rightarrow> rat"
  assumes "cws \<noteq> []"
  shows "g (hd (filter (\<lambda>m. \<forall>t\<in>set cws. g t \<le> g m) cws)) = Max (g ` set cws)"
proof -
  define k where "k = hd (filter (\<lambda>m. \<forall>t\<in>set cws. g t \<le> g m) cws)"
  have "k \<in> set (filter (\<lambda>m. \<forall>t\<in>set cws. g t \<le> g m) cws)"
    unfolding k_def by (rule hd_in_set) (rule first_max_exists [OF assms(1)])
  then have "k \<in> set cws" and "\<forall>t\<in>set cws. g t \<le> g k"
    by auto
  then show ?thesis
    unfolding k_def [symmetric] by (intro Max_eqI [symmetric]) auto
qed

lemma max_value_loop_filled:
  assumes "cws \<noteq> []"
  shows "\<exists>first rest. dict_fill g cws [] = first # rest
     \<and> max_value_loop (dict_fill g cws []) first
        = (let k = hd (filter (\<lambda>m. \<forall>t\<in>set cws. g t \<le> g m) cws) in (k, g k))"
proof -
  let ?P = "\<lambda>m. \<forall>t\<in>set cws. g t \<le> g m"
  from assms obtain b rest where u: "uniq cws = b # rest" and b: "b = hd cws"
    by (cases cws) auto
  have fill: "dict_fill g cws [] = (b, g b) # map (\<lambda>k. (k, g k)) rest"
    by (simp add: dict_fill_empty u)
  have "set (b # uniq cws) = set cws"
    using assms b by (cases cws) auto
  then have "max_value_loop (map (\<lambda>k. (k, g k)) (uniq cws)) (b, g b)
      = (let k = hd (filter ?P (b # uniq cws)) in (k, g k))"
    using max_value_loop_first_max [of g "uniq cws" b] by (simp only:)
  also have "hd (filter ?P (b # uniq cws)) = hd (filter ?P (uniq cws))"
    unfolding u by (rule hd_filter_Cons_dup)
  also have "\<dots> = hd (filter ?P cws)"
    by (simp add: filter_uniq hd_uniq)
  finally show ?thesis
    using fill by (simp add: dict_fill_empty u)
qed

lemma contribution_step:
  assumes "cws = py_split CHR '' '' name"
    and "max_value_loop d first = (let k = hd (filter (\<lambda>m. \<forall>t\<in>set cws. spec_similarity w t \<le> spec_similarity w m) cws) in (k, spec_similarity w k))"
    and "max_value_loop d first = (max_value_key, max_value)"
  shows "of_nat (length w) / of_nat (length (filter (\<lambda>c. c \<noteq> CHR '' '') query)) * max_value * (3 / 4)
       + of_nat (length max_value_key) / of_nat (length (filter (\<lambda>c. c \<noteq> CHR '' '') name)) * max_value * (1 / 4)
     = spec_contribution query name w"
proof -
  have ne: "cws \<noteq> []" using assms(1) by simp
  from assms(2,3) have k: "max_value_key = spec_best_token w cws"
    and v: "max_value = spec_similarity w (spec_best_token w cws)"
    by (simp_all add: Let_def spec_best_token_def)
  have "max_value = Max (spec_similarity w ` set cws)"
    unfolding v spec_best_token_def by (rule first_max_is_Max [OF ne])
  with k show ?thesis
    by (simp add: spec_contribution_def Let_def assms(1))
qed

lemma percent_match_loop_sum:
  assumes "\<forall>w\<in>set ks. map_of sw w = Some (dict_fill (spec_similarity w) (py_split CHR '' '' name) [])"
    and "filter (\<lambda>c. c \<noteq> CHR '' '') name \<noteq> []"
    and "filter (\<lambda>c. c \<noteq> CHR '' '') query \<noteq> []"
  shows "percent_match_loop ks sw name query acc
     = Inr (acc + sum_list (map (spec_contribution query name) ks))"
  using assms(1)
proof (induction ks arbitrary: acc)
  case Nil
  then show ?case by simp
next
  case (Cons w ks)
  let ?cws = "py_split CHR '' '' name"
  let ?d = "dict_fill (spec_similarity w) ?cws []"
  from max_value_loop_filled [of ?cws "spec_similarity w"]
  obtain first rest where d: "?d = first # rest"
    and best: "max_value_loop ?d first
        = (let k = hd (filter (\<lambda>m. \<forall>t\<in>set ?cws. spec_similarity w t \<le> spec_similarity w m) ?cws)
           in (k, spec_similarity w k))"
    by auto
  obtain max_value_key max_value where mv: "max_value_loop ?d first = (max_value_key, max_value)"
    by (cases "max_value_loop ?d first") auto
  have c: "of_nat (length w) / of_nat (length (filter (\<lambda>c. c \<noteq> CHR '' '') query)) * max_value * (3 / 4)
       + of_nat (length max_value_key) / of_nat (length (filter (\<lambda>c. c \<noteq> CHR '' '') name)) * max_value * (1 / 4)
     = spec_contribution query name w"
    by (rule contribution_step [OF refl best mv])
  from Cons.prems have sw: "map_of sw w = Some ?d"
    by simp
  from Cons.prems have "\<forall>w\<in>set ks. map_of sw w = Some (dict_fill (spec_similarity w) ?cws [])"
    by simp
  note IH = Cons.IH [OF this]
  have "percent_match_loop (w # ks) sw name query acc
     = percent_match_loop ks sw name query (acc + spec_contribution query name w)"
    using assms(2,3) c
    by (simp add: sw d mv [unfolded d] py_truediv_def py_replace_remove_char del: of_nat_eq_0_iff)
  then show ?case
    by (simp add: IH add.assoc)
qed

section \<open>The score of a query against a card name\<close>

lemma name_percent_match_sum:
  assumes "filter (\<lambda>c. c \<noteq> CHR '' '') query \<noteq> []"
    and "filter (\<lambda>c. c \<noteq> CHR '' '') name \<noteq> []"
    and "[] \<notin> set (py_split CHR '' '' query) \<or> [] \<notin> set (py_split CHR '' '' name)"
  shows "name_percent_match query name
     = Inr (\<Sum>q\<in>set (py_split CHR '' '' query). spec_contribution query name q)"
proof -
  let ?ts = "py_split CHR '' '' query"
  let ?cws = "py_split CHR '' '' name"
  let ?sw = "init_search_words ?ts []"
  have sw: "?sw = map (\<lambda>k. (k, [])) (uniq ?ts)"
    by (simp add: init_search_words_fill dict_fill_empty)
  then have keys: "map fst ?sw = uniq ?ts"
    by (simp add: comp_def)
  have empty: "map_of ?sw w = Some []" if "w \<in> set ?ts" for w
    unfolding sw using that by (simp add: map_of_map_restrict)
  have "set (uniq ?ts) \<subseteq> fst ` set ?sw"
    using keys by (metis list.set_map order_refl)
  moreover have "distinct (uniq ?ts)"
    by simp
  moreover have "\<forall>w\<in>set (uniq ?ts). w \<noteq> [] \<or> [] \<notin> set ?cws"
    using assms(3) by auto
  ultimately obtain sw' where run: "match_search_words (uniq ?ts) ?cws ?sw = Inr sw'"
    and keys': "map fst sw' = map fst ?sw"
    and vals: "\<And>w. map_of sw' w =
         (if w \<in> set (uniq ?ts)
          then Some (dict_fill (spec_similarity w) ?cws (the (map_of ?sw w)))
          else map_of ?sw w)"
    using match_search_words_fill [of "uniq ?ts" ?sw ?cws] by blast
  have "\<forall>w\<in>set (uniq ?ts). map_of sw' w = Some (dict_fill (spec_similarity w) ?cws [])"
    using vals empty by simp
  then have "percent_match_loop (uniq ?ts) sw' name query 0
      = Inr (0 + sum_list (map (spec_contribution query name) (uniq ?ts)))"
    using assms(1,2) by (intro percent_match_loop_sum) auto
  also have "sum_list (map (spec_contribution query name) (uniq ?ts))
      = (\<Sum>q\<in>set ?ts. spec_contribution query name q)"
    using sum_list_distinct_conv_sum_set [of "uniq ?ts" "spec_contribution query name"] by simp
  finally show ?thesis
    using run keys' keys by (simp add: name_percent_match_def Let_def)
qed

text \<open>
  Claim C1, as amended: for a query that is not empty after the trim and a card name with
  a character other than a space, when the query or the name has no empty token (no two
  adjacent spaces in the query, or no leading, trailing or doubled space in the name), the
  score is the sum, over the distinct tokens of the lowercased query (a token that occurs
  twice counts once), of \<open>tokenCoverage * s * 0.75 + nameCoverage * s * 0.25\<close>, with
  \<open>s\<close> the token's maximal similarity over the name's tokens and the coverages as stated.
\<close>

theorem name_percent_match_distinct_tokens:
  fixes q0 n0 :: string
  defines "query \<equiv> py_lower (py_strip CHR '' '' q0)"
    and "name \<equiv> py_lower n0"
  assumes "query \<noteq> []"
    and "filter (\<lambda>c. c \<noteq> CHR '' '') name \<noteq> []"
    and "[] \<notin> set (py_split CHR '' '' query) \<or> [] \<notin> set (py_split CHR '' '' name)"
  shows "name_percent_match query name
     = Inr (\<Sum>q\<in>set (py_split CHR '' '' query). spec_contribution query name q)"
  using assms(3-5) unfolding query_def
  by (intro name_percent_match_sum stripped_query_has_letter)

theorem name_percent_match_distinct_tokens_witness:
  "name_percent_match ''ab ab c'' ''ab cd''
     = Inr (\<Sum>q\<in>set (py_split CHR '' '' ''ab ab c''). spec_contribution ''ab ab c'' ''ab cd'' q)
   \<and> name_percent_match ''ab ab c'' ''ab cd'' = Inr (9 / 16)"
proof -
  have q: "py_lower (py_strip CHR '' '' '' Ab ab C '') = ''ab ab c''"
    by code_simp
  have n: "py_lower ''AB cd'' = ''ab cd''"
    by code_simp
  have h1: "py_lower (py_strip CHR '' '' '' Ab ab C '') \<noteq> []"
    unfolding q by simp
  have h2: "filter (\<lambda>c. c \<noteq> CHR '' '') (py_lower ''AB cd'') \<noteq> []"
    unfolding n by simp
  have h3: "[] \<notin> set (py_split CHR '' '' (py_lower (py_strip CHR '' '' '' Ab ab C '')))
      \<or> [] \<notin> set (py_split CHR '' '' (py_lower ''AB cd''))"
    unfolding q n by simp
  have v: "name_percent_match ''ab ab c'' ''ab cd'' = Inr (9 / 16)"
    by code_simp
  from name_percent_match_distinct_tokens [OF h1 h2 h3] v show ?thesis
    unfolding q n by simp
qed

text \<open>
  Claim C1 as stated fails: the query \<open>aa aa\<close> has the token \<open>aa\<close> twice; the sum over
  all its tokens is 5/4 for the card name \<open>aa\<close>, and the score is 5/8.
\<close>

theorem all_tokens_sum_counterexample:
  "name_percent_match (py_lower (py_strip CHR '' '' ''aa aa'')) (py_lower ''aa'') = Inr (5 / 8)
   \<and> sum_list (map (spec_contribution (py_lower (py_strip CHR '' '' ''aa aa'')) (py_lower ''aa''))
        (py_split CHR '' '' (py_lower (py_strip CHR '' '' ''aa aa'')))) = 5 / 4"
  by code_simp

subsection \<open>Two empty tokens\<close>

text \<open>
  Claim C5: the similarity of two empty tokens is not 1. The division by the maximal
  length 0 raises \<^verbatim>\<open>ZeroDivisionError\<close>, and the lookup of the query \<open>a  b\<close> (two
  spaces) raises it on a card named \<open>x  y\<close>.
\<close>

theorem word_match_empty_tokens_raises:
  "word_match '''' '''' = Inl ZeroDivisionError
   \<and> fst (find_card \<lparr>self_cards = [make_card ''x  y'' ''MINION'' ''CORE''], self_min_match = 3 / 4,
              self_whitelist = []\<rparr> ''a  b'' (3 / 4)) = Inl ZeroDivisionError"
  by code_simp

subsection \<open>Monotonicity of the accumulated score\<close>

lemma percent_match_loop_mono:
  assumes "percent_match_loop ks sw name query acc = Inr r"
    and "map_of sw w = Some (first # rest)"
    and "max_value_loop (first # rest) first = (k, s)"
    and "max_value_loop (first' # rest') first' = (k, s')"
    and "s \<le> s'" and "acc \<le> acc'"
  shows "\<exists>r'. percent_match_loop ks (dict_set w (first' # rest') sw) name query acc' = Inr r' \<and> r \<le> r'"
  using assms(1,6)
proof (induction ks arbitrary: acc acc')
  case Nil
  then show ?case by auto
next
  case (Cons x ks)
  let ?sw = "dict_set w (first' # rest') sw"
  from Cons.prems(1) obtain d f0 d0 key v a b where
    d: "map_of sw x = Some d" "d = f0 # d0" "max_value_loop d f0 = (key, v)"
    and a: "py_truediv (length key) (length (py_replace name '' '' '''')) = Inr a"
    and b: "py_truediv (length x) (length (py_replace query '' '' '''')) = Inr b"
    and rest: "percent_match_loop ks sw name query (acc + (b * v * (3 / 4) + a * v * (1 / 4))) = Inr r"
    by (auto split: option.splits list.splits prod.splits sum.splits)
  from a b have nonneg: "0 \<le> a" "0 \<le> b"
    by (auto simp: py_truediv_def split: if_splits)
  show ?case
  proof (cases "x = w")
    case True
    with d assms(2,3) have kv: "key = k" "v = s"
      by auto
    from nonneg assms(5) have "b * s * (3 / 4) + a * s * (1 / 4) \<le> b * s' * (3 / 4) + a * s' * (1 / 4)"
      by (intro add_mono mult_right_mono mult_left_mono) auto
    with Cons.prems(2)
    have "acc + (b * v * (3 / 4) + a * v * (1 / 4)) \<le> acc' + (b * s' * (3 / 4) + a * s' * (1 / 4))"
      unfolding kv by (rule add_mono)
    from Cons.IH [OF rest this] True a b assms(4) kv show ?thesis
      by (simp add: map_of_dict_set)
  next
    case False
    from Cons.prems(2)
    have "acc + (b * v * (3 / 4) + a * v * (1 / 4)) \<le> acc' + (b * v * (3 / 4) + a * v * (1 / 4))"
      by simp
    from Cons.IH [OF rest this] False a b d show ?thesis
      by (simp add: map_of_dict_set)
  qed
qed

text \<open>
  Claim C9, as amended: in the loop that adds up the score, when the entry of one search
  word is replaced by one whose best card word is the same and whose best match is not
  smaller, and nothing else changes, the loop still returns a score and the score is not
  smaller. The best card word has to stay the same: its length is a factor of the score.
\<close>

theorem percent_match_monotone:
  assumes "percent_match_loop (map fst search_words) search_words name query 0 = Inr r"
    and "map_of search_words w = Some (first # rest)"
    and "max_value_loop (first # rest) first = (k, s)"
    and "max_value_loop (first' # rest') first' = (k, s')"
    and "s \<le> s'"
  shows "\<exists>r'. percent_match_loop (map fst (dict_set w (first' # rest') search_words))
                 (dict_set w (first' # rest') search_words) name query 0 = Inr r'
              \<and> r \<le> r'"
proof -
  from assms(2) have "w \<in> fst ` set search_words"
    by (auto dest: map_of_SomeD intro: rev_image_eqI)
  then have "map fst (dict_set w (first' # rest') search_words) = map fst search_words"
    by (simp add: map_fst_dict_set)
  with percent_match_loop_mono [OF assms(1-5) order_refl] show ?thesis
    by simp
qed

theorem percent_match_monotone_witness:
  "percent_match_loop [''ab'', ''c''] [(''ab'', [(''ab'', 1 / 2), (''cd'', 0)]), (''c'', [(''ab'', 0), (''cd'', 1 / 2)])]
       ''ab cd'' ''ab c'' 0 = Inr (1 / 2)
   \<and> (\<exists>r'. percent_match_loop [''ab'', ''c''] [(''ab'', [(''ab'', 1), (''cd'', 0)]), (''c'', [(''ab'', 0), (''cd'', 1 / 2)])]
       ''ab cd'' ''ab c'' 0 = Inr r' \<and> 1 / 2 \<le> r')"
proof -
  let ?sw = "[(''ab'', [(''ab'', 1 / 2), (''cd'', 0 :: rat)]), (''c'', [(''ab'', 0), (''cd'', 1 / 2)])]"
  have h1: "percent_match_loop (map fst ?sw) ?sw ''ab cd'' ''ab c'' 0 = Inr (1 / 2)"
    by code_simp
  have h2: "map_of ?sw ''ab'' = Some ((''ab'', 1 / 2) # [(''cd'', 0)])"
    by simp
  have h3: "max_value_loop ((''ab'', 1 / 2) # [(''cd'', 0)]) (''ab'', 1 / 2) = (''ab'', 1 / 2)"
    by simp
  have h4: "max_value_loop ((''ab'', 1) # [(''cd'', 0)]) (''ab'', 1) = (''ab'', 1)"
    by simp
  have h5: "(1 / 2 :: rat) \<le> 1"
    by simp
  from percent_match_monotone [OF h1 h2 h3 h4 h5] h1 show ?thesis
    by simp
qed

text \<open>
  Claim C9 as stated fails: when the best match of the search word \<open>abcd\<close> rises from
  1/2 (on the card word \<open>abcdefgh\<close>) to 3/4 (on the shorter card word \<open>xyz\<close>), with the
  query, the name and the other search word's entry unchanged, the score falls from
  73/440 to 72/440, because the name coverage is the length of the best card word.
\<close>

theorem percent_match_best_word_counterexample:
  "max_value_loop [(''abcdefgh'', 1 / 2), (''xyz'', 0)] (''abcdefgh'', 1 / 2) = (''abcdefgh'', 1 / 2)
   \<and> max_value_loop [(''abcdefgh'', 1 / 2), (''xyz'', 3 / 4)] (''abcdefgh'', 1 / 2) = (''xyz'', 3 / 4)
   \<and> percent_match_loop [''abcd'', ''qqqqqqqqqqqqqqqq'']
         [(''abcd'', [(''abcdefgh'', 1 / 2), (''xyz'', 0)]),
          (''qqqqqqqqqqqqqqqq'', [(''abcdefgh'', 0), (''xyz'', 0)])]
         ''abcdefgh xyz'' ''abcd qqqqqqqqqqqqqqqq'' 0 = Inr (73 / 440)
   \<and> percent_match_loop [''abcd'', ''qqqqqqqqqqqqqqqq'']
         [(''abcd'', [(''abcdefgh'', 1 / 2), (''xyz'', 3 / 4)]),
          (''qqqqqqqqqqqqqqqq'', [(''abcdefgh'', 0), (''xyz'', 0)])]
         ''abcdefgh xyz'' ''abcd qqqqqqqqqqqqqqqq'' 0 = Inr (72 / 440)"
  by code_simp

section \<open>The best match\<close>

lemma find_card_loop_results:
  assumes "\<forall>c\<in>set cs. card_percent_match query c = Inr (s c)"
  shows "find_card_loop cs query m results
     = Inr (results @ filter (\<lambda>r. m \<le> snd r) (map (\<lambda>c. (c, s c)) cs))"
  using assms by (induction cs arbitrary: results) auto

lemma hd_sort_key_first_min:
  fixes f :: "'a \<Rightarrow> 'b::linorder"
  assumes "xs \<noteq> []"
  shows "hd (sort_key f xs) = hd (filter (\<lambda>x. \<forall>y\<in>set xs. f x \<le> f y) xs)"
proof -
  let ?ys = "sort_key f xs"
  from assms have ne: "?ys \<noteq> []"
    by (metis length_0_conv length_sort)
  then obtain z zs where ys: "?ys = z # zs"
    by (cases ?ys) auto
  have "sorted (map f ?ys)"
    by (rule sorted_sort_key)
  then have "\<forall>y\<in>set ?ys. f z \<le> f y"
    unfolding ys by auto
  then have least: "\<forall>y\<in>set xs. f z \<le> f y"
    by simp
  have "z \<in> set xs"
    using ys by (metis list.set_intros(1) set_sort)
  with least have same: "filter (\<lambda>x. \<forall>y\<in>set xs. f x \<le> f y) xs = filter (\<lambda>x. f x = f z) xs"
    by (intro filter_cong) (auto intro: antisym)
  have "filter (\<lambda>x. f x = f z) xs = filter (\<lambda>x. f x = f z) ?ys"
    by (rule sort_key_stable [symmetric])
  also have "\<dots> = z # filter (\<lambda>x. f x = f z) zs"
    unfolding ys by simp
  finally show ?thesis
    unfolding same ys by simp
qed

lemma hd_filter_index:
  assumes "\<exists>x\<in>set xs. P x"
  shows "\<exists>i<length xs. hd (filter P xs) = xs ! i \<and> P (xs ! i) \<and> (\<forall>j<i. \<not> P (xs ! j))"
  using assms
proof (induction xs)
  case Nil
  then show ?case by simp
next
  case (Cons x xs)
  show ?case
  proof (cases "P x")
    case True
    then have "hd (filter P (x # xs)) = (x # xs) ! 0 \<and> P ((x # xs) ! 0) \<and> (\<forall>j<0. \<not> P ((x # xs) ! j))"
      by simp
    then show ?thesis by blast
  next
    case False
    with Cons.prems have "\<exists>x\<in>set xs. P x" by auto
    from Cons.IH [OF this] obtain i where i: "i < length xs" "hd (filter P xs) = xs ! i"
      "P (xs ! i)" "\<forall>j<i. \<not> P (xs ! j)"
      by blast
    have "\<forall>j<Suc i. \<not> P ((x # xs) ! j)"
    proof (intro allI impI)
      fix j assume "j < Suc i"
      with False i(4) show "\<not> P ((x # xs) ! j)"
        by (cases j) auto
    qed
    with False i have "Suc i < length (x # xs) \<and> hd (filter P (x # xs)) = (x # xs) ! Suc i
        \<and> P ((x # xs) ! Suc i) \<and> (\<forall>j<Suc i. \<not> P ((x # xs) ! j))"
      by simp
    then show ?thesis by blast
  qed
qed

lemma find_card_first_best:
  assumes query: "py_lower (py_strip CHR '' '' q0) \<noteq> []"
    and scored: "\<forall>c\<in>set (self_cards self). card_percent_match (py_lower (py_strip CHR '' '' q0)) c = Inr (s c)"
    and some: "\<exists>c\<in>set (self_cards self). m \<le> s c"
  shows "fst (find_card self q0 m)
     = Inr (Some (hd (filter (\<lambda>c. m \<le> s c \<and> (\<forall>c'\<in>set (self_cards self). m \<le> s c' \<longrightarrow> s c' \<le> s c))
                        (self_cards self))))"
proof -
  let ?cards = "self_cards self"
  let ?h = "\<lambda>c. (c, s c)"
  let ?best = "\<lambda>c. m \<le> s c \<and> (\<forall>c'\<in>set ?cards. m \<le> s c' \<longrightarrow> s c' \<le> s c)"
  define results where "results = filter (\<lambda>r. m \<le> snd r) (map ?h ?cards)"
  have loop: "find_card_loop ?cards (py_lower (py_strip CHR '' '' q0)) m [] = Inr results"
    using find_card_loop_results [OF scored, of m "[]"] by (simp add: results_def)
  from some have ne: "results \<noteq> []"
    by (auto simp: results_def filter_empty_conv)
  have "Max (s ` set ?cards) \<in> s ` set ?cards"
    using some by (intro Max_in) auto
  then obtain c where c: "c \<in> set ?cards" "s c = Max (s ` set ?cards)"
    by auto
  then have top: "\<forall>c'\<in>set ?cards. s c' \<le> s c"
    by simp
  with some have "m \<le> s c"
    by (auto intro: order_trans)
  with c(1) top have "\<exists>x\<in>set ?cards. ?best x"
    by blast
  then have best_ne: "filter ?best ?cards \<noteq> []"
    by (auto simp: filter_empty_conv)
  have "hd (sort_key (\<lambda>r. - snd r) results)
      = hd (filter (\<lambda>x. \<forall>y\<in>set results. - snd x \<le> - snd y) results)"
    by (rule hd_sort_key_first_min [OF ne])
  also have "filter (\<lambda>x. \<forall>y\<in>set results. - snd x \<le> - snd y) results = map ?h (filter ?best ?cards)"
    unfolding results_def filter_filter filter_map comp_def
    by (rule arg_cong [where f = "map ?h"], rule filter_cong) auto
  also have "hd (map ?h (filter ?best ?cards)) = ?h (hd (filter ?best ?cards))"
    using best_ne by (rule hd_map)
  finally have "fst (hd (sort_key (\<lambda>r. - snd r) results)) = hd (filter ?best ?cards)"
    by simp
  with query loop ne show ?thesis
    by (simp add: find_card_def Let_def)
qed

lemma find_card_no_candidate:
  assumes query: "py_lower (py_strip CHR '' '' q0) \<noteq> []"
    and scored: "\<forall>c\<in>set (self_cards self). card_percent_match (py_lower (py_strip CHR '' '' q0)) c = Inr (s c)"
    and none: "\<forall>c\<in>set (self_cards self). s c < m"
  shows "fst (find_card self q0 m) = Inr None"
proof -
  have "filter (\<lambda>r. m \<le> snd r) (map (\<lambda>c. (c, s c)) (self_cards self)) = []"
    using none by (auto simp: filter_empty_conv)
  then have "find_card_loop (self_cards self) (py_lower (py_strip CHR '' '' q0)) m [] = Inr []"
    using find_card_loop_results [OF scored, of m "[]"] by simp
  then show ?thesis
    by (simp add: find_card_def Let_def)
qed

text \<open>
  Claim C2: for every query and threshold, when every card has a score (no card raises),
  the lookup returns no card if no score reaches the threshold, and otherwise the card of
  maximal score, the first such card in the order of the collection. A query that is
  empty after the trim returns no card.
\<close>

theorem find_card_best_match:
  fixes self :: hearthstone and q0 :: string and m :: rat and s :: "card \<Rightarrow> rat"
  defines "query \<equiv> py_lower (py_strip CHR '' '' q0)"
    and "cards \<equiv> self_cards self"
  shows "(query = [] \<longrightarrow> fst (find_card self q0 m) = Inr None)
    \<and> (query \<noteq> [] \<and> (\<forall>c\<in>set cards. card_percent_match query c = Inr (s c)) \<longrightarrow>
         (if \<forall>c\<in>set cards. s c < m then fst (find_card self q0 m) = Inr None
          else \<exists>i<length cards. fst (find_card self q0 m) = Inr (Some (cards ! i))
                 \<and> m \<le> s (cards ! i)
                 \<and> (\<forall>j<length cards. s (cards ! j) \<le> s (cards ! i))
                 \<and> (\<forall>j<i. s (cards ! j) < s (cards ! i))))"
proof (intro conjI impI)
  assume "query = []"
  then show "fst (find_card self q0 m) = Inr None"
    by (simp add: find_card_def query_def)
next
  assume "query \<noteq> [] \<and> (\<forall>c\<in>set cards. card_percent_match query c = Inr (s c))"
  then have query: "py_lower (py_strip CHR '' '' q0) \<noteq> []"
    and scored: "\<forall>c\<in>set (self_cards self). card_percent_match (py_lower (py_strip CHR '' '' q0)) c = Inr (s c)"
    by (simp_all add: query_def cards_def)
  show "if \<forall>c\<in>set cards. s c < m then fst (find_card self q0 m) = Inr None
        else \<exists>i<length cards. fst (find_card self q0 m) = Inr (Some (cards ! i))
               \<and> m \<le> s (cards ! i)
               \<and> (\<forall>j<length cards. s (cards ! j) \<le> s (cards ! i))
               \<and> (\<forall>j<i. s (cards ! j) < s (cards ! i))"
  proof (cases "\<forall>c\<in>set cards. s c < m")
    case True
    with find_card_no_candidate [OF query scored, of m] show ?thesis
      by (simp add: cards_def)
  next
    case False
    let ?best = "\<lambda>c. m \<le> s c \<and> (\<forall>c'\<in>set cards. m \<le> s c' \<longrightarrow> s c' \<le> s c)"
    from False have some: "\<exists>c\<in>set (self_cards self). m \<le> s c"
      by (auto simp: cards_def not_less)
    have found: "fst (find_card self q0 m) = Inr (Some (hd (filter ?best cards)))"
      using find_card_first_best [OF query scored some] by (simp add: cards_def)
    have "Max (s ` set cards) \<in> s ` set cards"
      using some by (intro Max_in) (auto simp: cards_def)
    then obtain c where c: "c \<in> set cards" "s c = Max (s ` set cards)"
      by auto
    then have top: "\<forall>c'\<in>set cards. s c' \<le> s c"
      by simp
    with some have "m \<le> s c"
      by (auto simp: cards_def intro: order_trans)
    with c(1) top have "\<exists>x\<in>set cards. ?best x"
      by blast
    from hd_filter_index [OF this] obtain i where i: "i < length cards"
      "hd (filter ?best cards) = cards ! i" "?best (cards ! i)" "\<forall>j<i. \<not> ?best (cards ! j)"
      by blast
    have all: "s (cards ! j) \<le> s (cards ! i)" if "j < length cards" for j
    proof (cases "m \<le> s (cards ! j)")
      case True
      with i(3) that show ?thesis by simp
    next
      case False
      with i(3) show ?thesis by simp
    qed
    have before: "s (cards ! j) < s (cards ! i)" if "j < i" for j
    proof (rule ccontr)
      assume "\<not> s (cards ! j) < s (cards ! i)"
      then have ge: "s (cards ! i) \<le> s (cards ! j)" by simp
      from that i(1) have j: "j < length cards" by simp
      from ge all [OF j] have eq: "s (cards ! j) = s (cards ! i)" by simp
      with i(3) have "?best (cards ! j)" by simp
      with i(4) that show False by blast
    qed
    from found i(1,2,3) all before False show ?thesis
      by auto
  qed
qed

theorem find_card_best_match_witness:
  "fst (find_card \<lparr>self_cards = [make_card ''Ragnaros the Firelord'' ''MINION'' ''EXPERT1'',
                                   make_card ''Ragnaros'' ''MINION'' ''CORE'',
                                   make_card ''Ragnaros'' ''SPELL'' ''CORE''],
          self_min_match = 3 / 4, self_whitelist = []\<rparr> '' Ragnaros'' (3 / 4))
     = Inr (Some (make_card ''Ragnaros'' ''MINION'' ''CORE''))
   \<and> fst (find_card \<lparr>self_cards = [make_card ''Ragnaros the Firelord'' ''MINION'' ''EXPERT1''],
          self_min_match = 3 / 4, self_whitelist = []\<rparr> ''  '' (3 / 4)) = Inr None"
proof -
  define A where "A = make_card ''Ragnaros the Firelord'' ''MINION'' ''EXPERT1''"
  define B where "B = make_card ''Ragnaros'' ''MINION'' ''CORE''"
  define C where "C = make_card ''Ragnaros'' ''SPELL'' ''CORE''"
  define W where "W = \<lparr>self_cards = [A, B, C], self_min_match = 3 / 4, self_whitelist = []\<rparr>"
  define W0 where "W0 = \<lparr>self_cards = [A], self_min_match = 3 / 4, self_whitelist = []\<rparr>"
  define s :: "card \<Rightarrow> rat" where "s = (\<lambda>c. if c = A then 65 / 76 else 1)"
  have q: "py_lower (py_strip CHR '' '' '' Ragnaros'') = ''ragnaros''"
    by code_simp
  have q0: "py_lower (py_strip CHR '' '' ''  '') = []"
    by code_simp
  have AB: "A \<noteq> B" and AC: "A \<noteq> C"
    by (simp_all add: A_def B_def C_def make_card_def)
  have sA: "card_percent_match ''ragnaros'' A = Inr (65 / 76)"
    unfolding A_def by code_simp
  have sB: "card_percent_match ''ragnaros'' B = Inr 1"
    unfolding B_def by code_simp
  have sC: "card_percent_match ''ragnaros'' C = Inr 1"
    unfolding C_def by code_simp
  have scored: "\<forall>c\<in>set (self_cards W). card_percent_match (py_lower (py_strip CHR '' '' '' Ragnaros'')) c = Inr (s c)"
    using AB AC by (simp add: q W_def s_def sA sB sC)
  have ne: "py_lower (py_strip CHR '' '' '' Ragnaros'') \<noteq> []"
    by (simp add: q)
  have cards: "self_cards W = [A, B, C]"
    by (simp add: W_def)
  have len: "length [A, B, C] = 3"
    by simp
  have step: "if \<forall>c\<in>set (self_cards W). s c < 3 / 4
      then fst (find_card W '' Ragnaros'' (3 / 4)) = Inr None
      else \<exists>i<length (self_cards W). fst (find_card W '' Ragnaros'' (3 / 4)) = Inr (Some (self_cards W ! i))
             \<and> 3 / 4 \<le> s (self_cards W ! i)
             \<and> (\<forall>j<length (self_cards W). s (self_cards W ! j) \<le> s (self_cards W ! i))
             \<and> (\<forall>j<i. s (self_cards W ! j) < s (self_cards W ! i))"
    using find_card_best_match [of "'' Ragnaros''" W "3 / 4" s] ne scored by blast
  have "\<not> (\<forall>c\<in>set (self_cards W). s c < 3 / 4)"
    by (simp add: cards s_def)
  with step have "\<exists>i<length (self_cards W). fst (find_card W '' Ragnaros'' (3 / 4)) = Inr (Some (self_cards W ! i))
             \<and> 3 / 4 \<le> s (self_cards W ! i)
             \<and> (\<forall>j<length (self_cards W). s (self_cards W ! j) \<le> s (self_cards W ! i))
             \<and> (\<forall>j<i. s (self_cards W ! j) < s (self_cards W ! i))"
    by (simp only: if_False)
  then obtain i where i: "i < 3" "fst (find_card W '' Ragnaros'' (3 / 4)) = Inr (Some ([A, B, C] ! i))"
    "\<forall>j<3. s ([A, B, C] ! j) \<le> s ([A, B, C] ! i)" "\<forall>j<i. s ([A, B, C] ! j) < s ([A, B, C] ! i)"
    unfolding cards len by blast
  from i(1) consider "i = 0" | "i = 1" | "i = 2"
    by linarith
  then have "i = 1"
  proof cases
    case 1
    with i(3) AB show ?thesis by (auto simp: s_def dest: spec [of _ 1])
  next
    case 2
    then show ?thesis .
  next
    case 3
    with i(4) AB AC show ?thesis by (auto simp: s_def dest: spec [of _ 1])
  qed
  with i(2) have "fst (find_card W '' Ragnaros'' (3 / 4)) = Inr (Some B)"
    by simp
  moreover from find_card_best_match [of "''  ''" W0 "3 / 4" s] q0
  have "fst (find_card W0 ''  '' (3 / 4)) = Inr None"
    by simp
  ultimately show ?thesis
    by (simp add: W_def W0_def A_def B_def C_def)
qed

section \<open>Properties of the lookup on a heap\<close>

lemma heap_list_append:
  "a < length h \<Longrightarrow> heap_list (h @ xs) a = heap_list h a"
  by (simp add: heap_list_def nth_append)

lemma heap_list_update_other:
  "a \<noteq> b \<Longrightarrow> heap_list (h[b := x]) a = heap_list h a"
  by (simp add: heap_list_def)

lemma heap_list_length:
  "heap_list h a = Some vs \<Longrightarrow> a < length h"
  by (simp add: heap_list_def split: if_splits)

text \<open>
  The loop returns when the list it iterates over is not the list it appends to, and it
  writes only to \<open>results\<close> and to new objects: a prefix of the heap that ends before
  \<open>results\<close> is left as it was.
\<close>

lemma find_card_heap_loop_frame:
  assumes "cards \<noteq> results" and "n \<le> results" and "n \<le> length h"
  shows "\<exists>err h'. find_card_heap_loop h cards i results query min_match = Some (err, h')
           \<and> take n h' = take n h \<and> length h \<le> length h'
           \<and> heap_list h' cards = heap_list h cards"
  using assms(3)
proof (induction k \<equiv> "case heap_list h cards of None \<Rightarrow> 0 | Some cs \<Rightarrow> length cs - i"
         arbitrary: h i rule: less_induct)
  case less
  show ?case
  proof (cases "heap_list h cards")
    case None
    then show ?thesis
      by (subst find_card_heap_loop.simps) simp
  next
    case (Some cs)
    note cs = this
    show ?thesis
    proof (cases "length cs \<le> i")
      case True
      with cs show ?thesis
        by (subst find_card_heap_loop.simps) simp
    next
      case False
      have step: "\<exists>err h'. find_card_heap_loop h2 cards (Suc i) results query min_match = Some (err, h')
           \<and> take n h' = take n h2 \<and> length h2 \<le> length h'
           \<and> heap_list h' cards = heap_list h2 cards"
        if "heap_list h2 cards = Some cs" and "n \<le> length h2" for h2
        using that False by (intro less.hyps) (simp_all add: cs)
      show ?thesis
      proof (cases "cs ! i")
        case (Float x)
        with cs False show ?thesis
          by (subst find_card_heap_loop.simps) simp
      next
        case (Ref r)
        show ?thesis
        proof (cases "heap_dict h r")
          case None
          with cs False Ref show ?thesis
            by (subst find_card_heap_loop.simps) simp
        next
          case (Some c)
          note c = this
          show ?thesis
          proof (cases "card_percent_match query c")
            case (Inl e)
            with cs False Ref c show ?thesis
              by (subst find_card_heap_loop.simps) simp
          next
            case (Inr pm)
            show ?thesis
            proof (cases "min_match \<le> pm")
              case no: False
              from step [OF cs less.prems] cs False Ref c Inr no show ?thesis
                by (subst find_card_heap_loop.simps) simp
            next
              case yes: True
              show ?thesis
              proof (cases "heap_list h results")
                case None
                with cs False Ref c Inr yes show ?thesis
                  by (subst find_card_heap_loop.simps) simp
              next
                case (Some rs)
                define h2 where "h2 = (h @ [PyList [Ref r, Float pm]])[results := PyList (rs @ [Ref (length h)])]"
                from cs have "cards < length h"
                  by (rule heap_list_length)
                with cs assms(1) have a: "heap_list h2 cards = Some cs"
                  by (simp add: h2_def heap_list_update_other heap_list_append)
                from less.prems have b: "n \<le> length h2"
                  by (simp add: h2_def)
                from assms(2) less.prems have t: "take n h2 = take n h"
                  by (simp add: h2_def)
                have l: "length h \<le> length h2"
                  by (simp add: h2_def)
                from step [OF a b] obtain err h' where
                  r: "find_card_heap_loop h2 cards (Suc i) results query min_match = Some (err, h')"
                  "take n h' = take n h2" "length h2 \<le> length h'" "heap_list h' cards = heap_list h2 cards"
                  by blast
                have "find_card_heap_loop h cards i results query min_match
                        = find_card_heap_loop h2 cards (Suc i) results query min_match"
                  using cs False Ref c Inr yes Some
                  by (subst find_card_heap_loop.simps) (simp add: alloc_def h2_def)
                with r t l a cs show ?thesis
                  by simp
              qed
            qed
          qed
        qed
      qed
    qed
  qed
qed

text \<open>Iterating over the empty list \<open>results\<close> itself ends at once.\<close>

lemma find_card_heap_loop_empty:
  "heap_list h cards = Some [] \<Longrightarrow>
     find_card_heap_loop h cards 0 results query min_match = Some (None, h)"
  by (subst find_card_heap_loop.simps) simp

lemma list_sort_heap_frame:
  assumes "list_sort_heap h a = (err, h')" and "n \<le> a"
  shows "take n h' = take n h \<and> length h' = length h"
  using assms by (auto simp: list_sort_heap_def split: option.splits sum.splits)

lemma heap_dict_append:
  "heap_dict h a = Some c \<Longrightarrow> heap_dict (h @ xs) a = Some c"
  by (simp add: heap_dict_def nth_append split: if_splits)

lemma heap_list_append_Some:
  "heap_list h a = Some vs \<Longrightarrow> heap_list (h @ xs) a = Some vs"
  by (simp add: heap_list_def nth_append split: if_splits)

lemma heap_instance_append:
  "heap_instance h a = Some b \<Longrightarrow> heap_instance (h @ xs) a = Some b"
  by (simp add: heap_instance_def nth_append split: if_splits)

lemma deref_cards_append:
  "deref_cards h vs = Some cs \<Longrightarrow> deref_cards (h @ xs) vs = Some cs"
proof (induction vs arbitrary: cs)
  case Nil
  then show ?case by simp
next
  case (Cons v vs)
  then show ?case
    by (auto simp: heap_dict_append split: pyval.splits option.splits)
qed

text \<open>
  A heap that extends another one holds the same card collection: the same card dicts,
  with the same fields, in the same order.
\<close>

lemma heap_cards_append:
  "heap_cards h self = Some cs \<Longrightarrow> heap_cards (h @ xs) self = Some cs"
  by (auto simp: heap_cards_def heap_instance_append heap_list_append_Some deref_cards_append
           split: option.splits)

lemma find_card_heap_total:
  "\<exists>res h'. find_card_heap h self query min_match = Some (res, h')
              \<and> take (length h) h' = h"
proof -
  define h1 where "h1 = h @ [PyList []]"
  define q where "q = py_lower (py_strip CHR '' '' query)"
  have h1: "take (length h) h1 = h" "length h \<le> length h1"
    by (simp_all add: h1_def)
  show ?thesis
  proof (cases "length q < 1")
    case True
    then show ?thesis
      by (simp add: find_card_heap_def alloc_def Let_def q_def)
  next
    case False
    note q = this
    show ?thesis
    proof (cases "heap_instance h1 self")
      case None
      with q show ?thesis
        by (simp add: find_card_heap_def alloc_def Let_def q_def h1_def)
    next
      case (Some cards)
      have "\<exists>err h2. find_card_heap_loop h1 cards 0 (length h) q min_match = Some (err, h2)
                \<and> take (length h) h2 = h \<and> length h1 \<le> length h2"
      proof (cases "cards = length h")
        case True
        then have "heap_list h1 cards = Some []"
          by (simp add: h1_def heap_list_def)
        then show ?thesis
          using h1 by (simp add: find_card_heap_loop_empty)
      next
        case False
        from find_card_heap_loop_frame [OF False order_refl h1(2), of 0 q min_match] h1(1)
        show ?thesis
          by auto
      qed
      then obtain err h2 where
        loop: "find_card_heap_loop h1 cards 0 (length h) q min_match = Some (err, h2)"
        and h2: "take (length h) h2 = h" "length h1 \<le> length h2"
        by blast
      show ?thesis
      proof (cases err)
        case (Some e)
        with q \<open>heap_instance h1 self = Some cards\<close> loop h2 show ?thesis
          by (simp add: find_card_heap_def alloc_def Let_def q_def h1_def)
      next
        case None
        note err = this
        show ?thesis
        proof (cases "heap_list h2 (length h)")
          case None
          with q \<open>heap_instance h1 self = Some cards\<close> loop h2 err show ?thesis
            by (simp add: find_card_heap_def alloc_def Let_def q_def h1_def)
        next
          case (Some rs)
          note rs = this
          show ?thesis
          proof (cases "length rs < 1")
            case True
            with q \<open>heap_instance h1 self = Some cards\<close> loop h2 err rs show ?thesis
              by (simp add: find_card_heap_def alloc_def Let_def q_def h1_def)
          next
            case False
            obtain e3 h3 where sort: "list_sort_heap h2 (length h) = (e3, h3)"
              by (cases "list_sort_heap h2 (length h)")
            from list_sort_heap_frame [OF sort order_refl] h2 have h3: "take (length h) h3 = h"
              by simp
            from q \<open>heap_instance h1 self = Some cards\<close> loop err rs False sort h3 show ?thesis
              by (simp add: find_card_heap_def alloc_def Let_def q_def h1_def
                       split: option.splits sum.splits)
          qed
        qed
      qed
    qed
  qed
qed

text \<open>
  Claim C10: on every heap, for every query and threshold, the lookup returns or raises,
  and each object that was in the heap before the call (the cog, the list
  \<^verbatim>\<open>self.cards\<close>, every card dict) is the same after it; so the card collection of the
  cog, where it has one, is the same sequence of cards with the same fields. The list
  \<^verbatim>\<open>results\<close> that is appended to and sorted in place and its elements, which refer to
  card dicts, are new objects behind them.
\<close>

theorem find_card_heap_frame:
  "\<exists>res h'. find_card_heap h self query min_match = Some (res, h')
              \<and> take (length h) h' = h
              \<and> (heap_cards h self \<noteq> None \<longrightarrow> heap_cards h' self = heap_cards h self)"
proof -
  from find_card_heap_total obtain res h' where
    r: "find_card_heap h self query min_match = Some (res, h')" "take (length h) h' = h"
    by blast
  from r(2) have "h' = h @ drop (length h) h'"
    by (metis append_take_drop_id)
  then have "heap_cards h' self = heap_cards h self" if "heap_cards h self \<noteq> None"
    using that heap_cards_append [of h self _ "drop (length h) h'"] by auto
  with r show ?thesis
    by blast
qed

theorem find_card_heap_frame_witness:
  "heap_cards
     [Instance 1, PyList [Ref 2, Ref 3, Ref 4],
      Dict (make_card ''Fireball'' ''SPELL'' ''CORE''),
      Dict (make_card ''Ragnaros the Firelord'' ''MINION'' ''EXPERT1''),
      Dict (make_card ''Fire'' ''SPELL'' ''CORE'')] 0
     = Some [make_card ''Fireball'' ''SPELL'' ''CORE'',
             make_card ''Ragnaros the Firelord'' ''MINION'' ''EXPERT1'',
             make_card ''Fire'' ''SPELL'' ''CORE'']
   \<and> (\<exists>res h'. find_card_heap
          [Instance 1, PyList [Ref 2, Ref 3, Ref 4],
           Dict (make_card ''Fireball'' ''SPELL'' ''CORE''),
           Dict (make_card ''Ragnaros the Firelord'' ''MINION'' ''EXPERT1''),
           Dict (make_card ''Fire'' ''SPELL'' ''CORE'')] 0 ''fire'' (1 / 4) = Some (res, h')
        \<and> take 5 h' =
            [Instance 1, PyList [Ref 2, Ref 3, Ref 4],
             Dict (make_card ''Fireball'' ''SPELL'' ''CORE''),
             Dict (make_card ''Ragnaros the Firelord'' ''MINION'' ''EXPERT1''),
             Dict (make_card ''Fire'' ''SPELL'' ''CORE'')]
        \<and> heap_cards h' 0
            = Some [make_card ''Fireball'' ''SPELL'' ''CORE'',
                    make_card ''Ragnaros the Firelord'' ''MINION'' ''EXPERT1'',
                    make_card ''Fire'' ''SPELL'' ''CORE''])"
proof -
  let ?h = "[Instance 1, PyList [Ref 2, Ref 3, Ref 4],
      Dict (make_card ''Fireball'' ''SPELL'' ''CORE''),
      Dict (make_card ''Ragnaros the Firelord'' ''MINION'' ''EXPERT1''),
      Dict (make_card ''Fire'' ''SPELL'' ''CORE'')]"
  have c: "heap_cards ?h 0
     = Some [make_card ''Fireball'' ''SPELL'' ''CORE'',
             make_card ''Ragnaros the Firelord'' ''MINION'' ''EXPERT1'',
             make_card ''Fire'' ''SPELL'' ''CORE'']"
    by code_simp
  have l: "length ?h = 5"
    by simp
  from find_card_heap_frame [of ?h 0 "''fire''" "1 / 4"] c show ?thesis
    unfolding l by simp
qed

text \<open>
  The heap after that lookup: the three cards pass the threshold; \<^verbatim>\<open>results\<close>, at
  address 5, has been sorted in place and its elements refer to the card dicts at 4, 2
  and 3, which are where and what they were.
\<close>

lemma find_card_heap_example:
  "find_card_heap
     [Instance 1, PyList [Ref 2, Ref 3, Ref 4],
      Dict (make_card ''Fireball'' ''SPELL'' ''CORE''),
      Dict (make_card ''Ragnaros the Firelord'' ''MINION'' ''EXPERT1''),
      Dict (make_card ''Fire'' ''SPELL'' ''CORE'')] 0 ''fire'' (1 / 4)
   = Some (Inr (Some (Ref 4)),
      [Instance 1, PyList [Ref 2, Ref 3, Ref 4],
       Dict (make_card ''Fireball'' ''SPELL'' ''CORE''),
       Dict (make_card ''Ragnaros the Firelord'' ''MINION'' ''EXPERT1''),
       Dict (make_card ''Fire'' ''SPELL'' ''CORE''),
       PyList [Ref 8, Ref 6, Ref 7],
       PyList [Ref 2, Float (1 / 2)],
       PyList [Ref 3, Float (65 / 152)],
       PyList [Ref 4, Float 1]])"
  by code_simp

subsection \<open>The lookup on the heap and the lookup on the list of cards\<close>

lemma heap_dict_length:
  "heap_dict h a = Some c \<Longrightarrow> a < length h"
  by (simp add: heap_dict_def split: if_splits)

lemma heap_dict_step:
  assumes "heap_dict h r = Some c" and "heap_list h results = Some rs"
  shows "heap_dict ((h @ [x])[results := y]) r = Some c"
  using assms
  by (auto simp: heap_dict_def heap_list_def nth_append nth_list_update split: if_splits pyobj.splits)

lemma heap_list_step:
  assumes "heap_list h e = Some vs" and "e \<noteq> results"
  shows "heap_list ((h @ [x])[results := y]) e = Some vs"
  using assms
  by (auto simp: heap_list_def nth_append split: if_splits)

lemma deref_cards_mono:
  assumes "\<And>r c. heap_dict h r = Some c \<Longrightarrow> heap_dict h' r = Some c"
  shows "deref_cards h vs = Some cs \<Longrightarrow> deref_cards h' vs = Some cs"
proof (induction vs arbitrary: cs)
  case Nil
  then show ?case by simp
next
  case (Cons v vs)
  then show ?case
    by (auto simp: assms split: pyval.splits option.splits)
qed

lemma deref_cards_nth:
  "deref_cards h vs = Some cs \<Longrightarrow>
     length cs = length vs \<and> (\<forall>i<length vs. \<exists>r. vs ! i = Ref r \<and> heap_dict h r = Some (cs ! i))"
proof (induction vs arbitrary: cs)
  case Nil
  then show ?case by simp
next
  case (Cons v vs)
  from Cons.prems obtain r c cs' where v: "v = Ref r" "heap_dict h r = Some c"
    and cs': "deref_cards h vs = Some cs'" "cs = c # cs'"
    by (auto split: pyval.splits option.splits)
  from Cons.IH [OF cs'(1)] v cs'(2) show ?case
    by (auto simp: nth_Cons split: nat.splits)
qed

lemma find_card_heap_loop_refines:
  assumes ne: "cards \<noteq> results"
    and vs: "heap_list h cards = Some vs"
    and cs: "deref_cards h vs = Some cs"
    and rs: "heap_list h results = Some rs"
    and rel: "list_all2 (entry_rel h results vs) rs acc"
  shows "case find_card_loop (drop i cs) query min_match acc of
           Inl e \<Rightarrow> \<exists>h'. find_card_heap_loop h cards i results query min_match = Some (Some e, h')
         | Inr acc' \<Rightarrow>
             \<exists>h' rs'. find_card_heap_loop h cards i results query min_match = Some (None, h')
               \<and> heap_list h' results = Some rs'
               \<and> list_all2 (entry_rel h' results vs) rs' acc'
               \<and> (\<forall>r c. heap_dict h r = Some c \<longrightarrow> heap_dict h' r = Some c)"
  using vs cs rs rel
proof (induction k \<equiv> "length vs - i" arbitrary: h i rs acc rule: less_induct)
  case less
  note vs = less.prems(1) and cs = less.prems(2) and rs = less.prems(3) and rel = less.prems(4)
  from deref_cards_nth [OF cs] have len: "length cs = length vs"
    and nth: "\<And>j. j < length vs \<Longrightarrow> \<exists>r. vs ! j = Ref r \<and> heap_dict h r = Some (cs ! j)"
    by blast+
  show ?case
  proof (cases "length vs \<le> i")
    case True
    with vs have "find_card_heap_loop h cards i results query min_match = Some (None, h)"
      by (subst find_card_heap_loop.simps) simp
    with True len rs rel show ?thesis
      by simp
  next
    case False
    then have i: "i < length vs"
      by simp
    from nth [OF i] obtain r where r: "vs ! i = Ref r" "heap_dict h r = Some (cs ! i)"
      by blast
    define c where "c = cs ! i"
    from i len have dr: "drop i cs = c # drop (Suc i) cs"
      by (simp add: c_def Cons_nth_drop_Suc)
    show ?thesis
    proof (cases "card_percent_match query c")
      case (Inl e)
      with vs False r have "find_card_heap_loop h cards i results query min_match = Some (Some e, h)"
        by (subst find_card_heap_loop.simps) (simp add: c_def)
      with Inl dr show ?thesis
        by simp
    next
      case (Inr pm)
      show ?thesis
      proof (cases "min_match \<le> pm")
        case no: False
        from vs False r Inr no
        have e1: "find_card_heap_loop h cards i results query min_match
            = find_card_heap_loop h cards (Suc i) results query min_match"
          by (subst find_card_heap_loop.simps) (simp add: c_def)
        from Inr no dr
        have e2: "find_card_loop (drop i cs) query min_match acc
            = find_card_loop (drop (Suc i) cs) query min_match acc"
          by simp
        from i have "length vs - Suc i < length vs - i"
          by simp
        from less.hyps [OF this vs cs rs rel]
        have "case find_card_loop (drop (Suc i) cs) query min_match acc of
           Inl e \<Rightarrow> \<exists>h'. find_card_heap_loop h cards (Suc i) results query min_match = Some (Some e, h')
         | Inr acc' \<Rightarrow>
             \<exists>h' rs'. find_card_heap_loop h cards (Suc i) results query min_match = Some (None, h')
               \<and> heap_list h' results = Some rs'
               \<and> list_all2 (entry_rel h' results vs) rs' acc'
               \<and> (\<forall>r c. heap_dict h r = Some c \<longrightarrow> heap_dict h' r = Some c)" .
        then show ?thesis
          unfolding e1 e2 .
      next
        case yes: True
        define h2 where "h2 = (h @ [PyList [Ref r, Float pm]])[results := PyList (rs @ [Ref (length h)])]"
        from rs have rl: "results < length h"
          by (rule heap_list_length)
        have keep: "heap_dict h2 r' = Some c'" if "heap_dict h r' = Some c'" for r' c'
          unfolding h2_def using that rs by (rule heap_dict_step)
        from vs ne have vs2: "heap_list h2 cards = Some vs"
          unfolding h2_def by (rule heap_list_step)
        from keep cs have cs2: "deref_cards h2 vs = Some cs"
          by (rule deref_cards_mono)
        from rl have rs2: "heap_list h2 results = Some (rs @ [Ref (length h)])"
          by (simp add: h2_def heap_list_def)
        have old: "entry_rel h2 results vs v p" if "entry_rel h results vs v p" for v p
        proof -
          from that obtain e r' where e: "v = Ref e" "e \<noteq> results"
            "heap_list h e = Some [Ref r', Float (snd p)]"
            "heap_dict h r' = Some (fst p)" "Ref r' \<in> set vs"
            unfolding entry_rel_def by blast
          from e(3,2) have "heap_list h2 e = Some [Ref r', Float (snd p)]"
            unfolding h2_def by (rule heap_list_step)
          moreover from e(4) have "heap_dict h2 r' = Some (fst p)"
            by (rule keep)
          ultimately show ?thesis
            unfolding entry_rel_def using e(1,2,5) by blast
        qed
        from i r(1) have mem: "Ref r \<in> set vs"
          by (metis nth_mem)
        from rl have "heap_list h2 (length h) = Some [Ref r, Float pm]"
          by (simp add: h2_def heap_list_def)
        moreover from rl have "length h \<noteq> results"
          by simp
        moreover from keep [OF r(2)] have "heap_dict h2 r = Some c"
          by (simp add: c_def)
        ultimately have new: "entry_rel h2 results vs (Ref (length h)) (c, pm)"
          unfolding entry_rel_def using mem by simp
        from rel old have "list_all2 (entry_rel h2 results vs) rs acc"
          by (rule list_all2_mono)
        with new have rel2: "list_all2 (entry_rel h2 results vs) (rs @ [Ref (length h)]) (acc @ [(c, pm)])"
          by (simp add: list_all2_appendI)
        from vs False r Inr yes rs
        have e1: "find_card_heap_loop h cards i results query min_match
            = find_card_heap_loop h2 cards (Suc i) results query min_match"
          by (subst find_card_heap_loop.simps) (simp add: c_def alloc_def h2_def)
        from Inr yes dr
        have e2: "find_card_loop (drop i cs) query min_match acc
            = find_card_loop (drop (Suc i) cs) query min_match (acc @ [(c, pm)])"
          by simp
        from i have "length vs - Suc i < length vs - i"
          by simp
        from less.hyps [OF this vs2 cs2 rs2 rel2]
        have IH: "case find_card_loop (drop (Suc i) cs) query min_match (acc @ [(c, pm)]) of
           Inl e \<Rightarrow> \<exists>h'. find_card_heap_loop h2 cards (Suc i) results query min_match = Some (Some e, h')
         | Inr acc' \<Rightarrow>
             \<exists>h' rs'. find_card_heap_loop h2 cards (Suc i) results query min_match = Some (None, h')
               \<and> heap_list h' results = Some rs'
               \<and> list_all2 (entry_rel h' results vs) rs' acc'
               \<and> (\<forall>r c. heap_dict h2 r = Some c \<longrightarrow> heap_dict h' r = Some c)" .
        show ?thesis
        proof (cases "find_card_loop (drop (Suc i) cs) query min_match (acc @ [(c, pm)])")
          case (Inl e)
          with IH show ?thesis
            unfolding e1 e2 by (simp only: sum.case)
        next
          case (Inr acc')
          with IH obtain h' rs' where
            h': "find_card_heap_loop h2 cards (Suc i) results query min_match = Some (None, h')"
            "heap_list h' results = Some rs'" "list_all2 (entry_rel h' results vs) rs' acc'"
            "\<And>r c. heap_dict h2 r = Some c \<Longrightarrow> heap_dict h' r = Some c"
            by (simp only: sum.case) blast
          from h'(4) keep have "\<forall>r c. heap_dict h r = Some c \<longrightarrow> heap_dict h' r = Some c"
            by blast
          with h'(1-3) show ?thesis
            unfolding e1 e2 Inr by (simp only: sum.case) blast
        qed
      qed
    qed
  qed
qed

lemma sort_keys_entries:
  "list_all2 (entry_rel h results vs) rs acc \<Longrightarrow> sort_keys h rs = Inr (map snd acc)"
proof (induction rule: list_all2_induct)
  case Nil
  then show ?case by simp
next
  case (Cons v rs p acc)
  from Cons(1) obtain e r where "v = Ref e" "heap_list h e = Some [Ref r, Float (snd p)]"
    unfolding entry_rel_def by blast
  with Cons(3) show ?case
    by simp
qed

lemma insort_key_rel:
  fixes f :: "'a \<Rightarrow> 'k::linorder" and g :: "'b \<Rightarrow> 'k"
  assumes "list_all2 Q xs ys" and "Q x y" and "\<And>a b. Q a b \<Longrightarrow> f a = g b"
  shows "list_all2 Q (insort_key f x xs) (insort_key g y ys)"
  using assms(1)
proof (induction rule: list_all2_induct)
  case Nil
  from assms(2) show ?case by simp
next
  case (Cons a xs b ys)
  from assms(2,3) have "f x = g y"
    by blast
  moreover from Cons(1) assms(3) have "f a = g b"
    by blast
  ultimately show ?case
    using Cons assms(2) by simp
qed

lemma sort_key_rel:
  fixes f :: "'a \<Rightarrow> 'k::linorder" and g :: "'b \<Rightarrow> 'k"
  assumes "list_all2 Q xs ys" and "\<And>a b. Q a b \<Longrightarrow> f a = g b"
  shows "list_all2 Q (sort_key f xs) (sort_key g ys)"
  using assms(1)
proof (induction rule: list_all2_induct)
  case Nil
  show ?case by simp
next
  case (Cons a xs b ys)
  from Cons(3) Cons(1) assms(2) have "list_all2 Q (insort_key f a (sort_key f xs)) (insort_key g b (sort_key g ys))"
    by (rule insort_key_rel)
  then show ?case
    by simp
qed

lemma zip_keys_rel:
  "list_all2 R rs acc \<Longrightarrow>
     list_all2 (\<lambda>vk p. R (fst vk) p \<and> snd vk = snd p) (zip rs (map snd acc)) acc"
  by (induction rule: list_all2_induct) simp_all

text \<open>
  After the in-place sort, \<^verbatim>\<open>results[0][0]\<close> is the reference held by the element
  that \<open>sort_key\<close> puts first in the list of pairs.
\<close>

lemma sorted_results_first:
  assumes rs: "heap_list h results = Some rs"
    and rel: "list_all2 (entry_rel h results vs) rs acc"
    and ne: "acc \<noteq> []"
  shows "\<exists>h' r. list_sort_heap h results = (None, h')
           \<and> first_of_first h' results = Inr (Ref r)
           \<and> heap_dict h r = Some (fst (hd (sort_key (\<lambda>p. - snd p) acc)))
           \<and> Ref r \<in> set vs"
proof -
  define ks where "ks = map snd acc"
  define srt where "srt = sort_key (\<lambda>p. - snd p) (zip rs ks)"
  define h' where "h' = h[results := PyList (map fst srt)]"
  let ?Q = "\<lambda>vk p. entry_rel h results vs (fst vk) p \<and> snd vk = snd p"
  from rel have keys: "sort_keys h rs = Inr ks"
    unfolding ks_def by (rule sort_keys_entries)
  with rs have sort: "list_sort_heap h results = (None, h')"
    by (simp add: list_sort_heap_def h'_def srt_def)
  from rel have "list_all2 ?Q (zip rs ks) acc"
    unfolding ks_def by (rule zip_keys_rel)
  then have "list_all2 ?Q srt (sort_key (\<lambda>p. - snd p) acc)"
    unfolding srt_def by (rule sort_key_rel) simp
  moreover from ne have "sort_key (\<lambda>p. - snd p) acc \<noteq> []"
    by (metis length_0_conv length_sort)
  ultimately obtain vk srt' p ps where s: "srt = vk # srt'" "sort_key (\<lambda>p. - snd p) acc = p # ps"
    and q: "entry_rel h results vs (fst vk) p"
    by (cases srt; cases "sort_key (\<lambda>p. - snd p) acc") auto
  from q obtain e r where e: "fst vk = Ref e" "e \<noteq> results"
    "heap_list h e = Some [Ref r, Float (snd p)]" "heap_dict h r = Some (fst p)" "Ref r \<in> set vs"
    unfolding entry_rel_def by blast
  from rs have "results < length h"
    by (rule heap_list_length)
  then have "heap_list h' results = Some (map fst srt)"
    by (simp add: h'_def heap_list_def)
  moreover from e(2,3) have "heap_list h' e = Some [Ref r, Float (snd p)]"
    by (simp add: h'_def heap_list_update_other)
  ultimately have "first_of_first h' results = Inr (Ref r)"
    using s(1) e(1) by (simp add: first_of_first_def)
  with sort e(4,5) s(2) show ?thesis
    by simp
qed

lemma deref_cards_mem:
  assumes "deref_cards h vs = Some cs" and "Ref r \<in> set vs"
  shows "\<exists>c. heap_dict h r = Some c"
proof -
  from assms(2) obtain i where "i < length vs" "vs ! i = Ref r"
    by (auto simp: in_set_conv_nth)
  with deref_cards_nth [OF assms(1)] show ?thesis
    by fastforce
qed

text \<open>
  The lookup on the heap is the lookup on the list of cards: on a heap in which the cog
  has a card collection, it raises what \<open>find_card\<close> raises on that collection, returns
  \<^verbatim>\<open>None\<close> when \<open>find_card\<close> does, and otherwise returns a reference to a card dict of
  the collection, the one that holds the card \<open>find_card\<close> returns.
\<close>

lemma find_card_heap_refines:
  assumes "heap_cards h self = Some (self_cards s)"
  shows "\<exists>res h'. find_card_heap h self query min_match = Some (res, h')
      \<and> map_sum id (map_option (val_card h)) res
          = map_sum id (map_option Some) (fst (find_card s query min_match))"
proof -
  define cs where "cs = self_cards s"
  define h1 where "h1 = h @ [PyList []]"
  define q where "q = py_lower (py_strip CHR '' '' query)"
  from assms obtain la vs where la: "heap_instance h self = Some la"
    and vs: "heap_list h la = Some vs" and dc: "deref_cards h vs = Some cs"
    by (auto simp: heap_cards_def cs_def split: option.splits)
  show ?thesis
  proof (cases "length q < 1")
    case True
    then have "find_card_heap h self query min_match = Some (Inr None, h1)"
      by (simp add: find_card_heap_def alloc_def Let_def q_def h1_def)
    moreover from True have "fst (find_card s query min_match) = Inr None"
      by (simp add: find_card_def Let_def q_def)
    ultimately show ?thesis
      by simp
  next
    case False
    note q = this
    from la have la1: "heap_instance h1 self = Some la"
      unfolding h1_def by (rule heap_instance_append)
    from vs have vs1: "heap_list h1 la = Some vs"
      unfolding h1_def by (rule heap_list_append_Some)
    from dc have dc1: "deref_cards h1 vs = Some cs"
      unfolding h1_def by (rule deref_cards_append)
    from vs have "la < length h"
      by (rule heap_list_length)
    then have ne: "la \<noteq> length h"
      by simp
    have rs1: "heap_list h1 (length h) = Some []"
      by (simp add: h1_def heap_list_def)
    have rel1: "list_all2 (entry_rel h1 (length h) vs) [] []"
      by simp
    have keep1: "heap_dict h1 r = Some c" if "heap_dict h r = Some c" for r c
      unfolding h1_def using that by (rule heap_dict_append)
    from find_card_heap_loop_refines [OF ne vs1 dc1 rs1 rel1, of 0 q min_match]
    have loop: "case find_card_loop cs q min_match [] of
           Inl e \<Rightarrow> \<exists>h'. find_card_heap_loop h1 la 0 (length h) q min_match = Some (Some e, h')
         | Inr acc' \<Rightarrow>
             \<exists>h' rs'. find_card_heap_loop h1 la 0 (length h) q min_match = Some (None, h')
               \<and> heap_list h' (length h) = Some rs'
               \<and> list_all2 (entry_rel h' (length h) vs) rs' acc'
               \<and> (\<forall>r c. heap_dict h1 r = Some c \<longrightarrow> heap_dict h' r = Some c)"
      by simp
    show ?thesis
    proof (cases "find_card_loop cs q min_match []")
      case (Inl e)
      with loop obtain h' where "find_card_heap_loop h1 la 0 (length h) q min_match = Some (Some e, h')"
        by (simp only: sum.case) blast
      with q la1 have "find_card_heap h self query min_match = Some (Inl e, h')"
        by (simp add: find_card_heap_def alloc_def Let_def q_def h1_def)
      moreover from q Inl have "fst (find_card s query min_match) = Inl e"
        by (simp add: find_card_def Let_def q_def cs_def)
      ultimately show ?thesis
        by simp
    next
      case (Inr acc)
      with loop obtain h' rs' where
        l: "find_card_heap_loop h1 la 0 (length h) q min_match = Some (None, h')"
        and rs': "heap_list h' (length h) = Some rs'"
        and rel: "list_all2 (entry_rel h' (length h) vs) rs' acc"
        and keep: "\<And>r c. heap_dict h1 r = Some c \<Longrightarrow> heap_dict h' r = Some c"
        by (simp only: sum.case) blast
      from rel have len: "length rs' = length acc"
        by (rule list_all2_lengthD)
      show ?thesis
      proof (cases "acc = []")
        case True
        with len q la1 l rs' have "find_card_heap h self query min_match = Some (Inr None, h')"
          by (simp add: find_card_heap_def alloc_def Let_def q_def h1_def)
        moreover from q Inr True have "fst (find_card s query min_match) = Inr None"
          by (simp add: find_card_def Let_def q_def cs_def)
        ultimately show ?thesis
          by simp
      next
        case False
        from sorted_results_first [OF rs' rel False] obtain h'' r where
          sort: "list_sort_heap h' (length h) = (None, h'')"
          and first: "first_of_first h'' (length h) = Inr (Ref r)"
          and card: "heap_dict h' r = Some (fst (hd (sort_key (\<lambda>p. - snd p) acc)))"
          and mem: "Ref r \<in> set vs"
          by blast
        from deref_cards_mem [OF dc mem] obtain c0 where c0: "heap_dict h r = Some c0"
          by blast
        from keep [OF keep1 [OF c0]] card have "c0 = fst (hd (sort_key (\<lambda>p. - snd p) acc))"
          by simp
        with c0 have val: "val_card h (Ref r) = Some (fst (hd (sort_key (\<lambda>p. - snd p) acc)))"
          by (simp add: val_card_def)
        from False len have "\<not> length rs' < 1"
          by simp
        with q la1 l rs' sort first
        have "find_card_heap h self query min_match = Some (Inr (Some (Ref r)), h'')"
          by (simp add: find_card_heap_def alloc_def Let_def q_def h1_def)
        moreover from q Inr False
        have "fst (find_card s query min_match) = Inr (Some (fst (hd (sort_key (\<lambda>p. - snd p) acc))))"
          by (simp add: find_card_def Let_def q_def cs_def)
        ultimately show ?thesis
          using val by simp
      qed
    qed
  qed
qed

section \<open>Properties of \<^verbatim>\<open>str.replace\<close>\<close>









section \<open>Properties of \<^verbatim>\<open>_format_card\<close>\<close>






lemma format_card_fields:
  assumes "card_type c = Some t"
  shows "\<exists>c'. format_card c = Inr c'
     \<and> card_text c' = map_option normalize_text (card_text c)
     \<and> card_flavor c' = map_option normalize_tags (card_flavor c)
     \<and> card_type c' = Some t
     \<and> card_set c' = map_option display_set (card_set c)
     \<and> card_name c' = card_name c"
proof -
  define c1 where "c1 = (case card_text c of
                  None \<Rightarrow> c
                | Some text \<Rightarrow>
                    (let text1 = replace_spell_power_char text;
                         text2 = replace_html_tag text1 ''b'' ''**'';
                         text3 = replace_html_tag text2 ''i'' ''*'';
                         text4 = py_replace text3 ''\<newline>'' '' ''
                     in c\<lparr>card_text := Some text4\<rparr>))"
  define c2 where "c2 = (case card_flavor c1 of
                  None \<Rightarrow> c1
                | Some text \<Rightarrow>
                    (let text1 = replace_html_tag text ''b'' ''**'';
                         text2 = replace_html_tag text1 ''i'' ''*'';
                         text3 = py_replace text2 ''\<newline>'' '' ''
                     in c1\<lparr>card_flavor := Some text3\<rparr>))"
  define c3 where "c3 = (\<lambda>t. if t = CardType_MINION
                        then (if card_playerClass c2 = None \<and> card_collectible c2 \<noteq> None
                              then c2\<lparr>card_playerClass := Some ''Neutral''\<rparr> else c2)
                        else c2)"
  define c4 where "c4 = (\<lambda>t. case card_playerClass (c3 t) of
                          None \<Rightarrow> c3 t
                        | Some pc \<Rightarrow> (c3 t)\<lparr>card_playerClass := Some (py_title pc)\<rparr>)"
  define c5 where "c5 = (\<lambda>t. case card_set (c4 t) of
                          None \<Rightarrow> c4 t
                        | Some cset \<Rightarrow>
                            if cset = CardSet_BASIC then (c4 t)\<lparr>card_set := Some ''Basic''\<rparr>
                            else if cset = CardSet_CLASSIC then (c4 t)\<lparr>card_set := Some ''Classic''\<rparr>
                            else c4 t)"
  have run: "format_card c = (case card_type c2 of None \<Rightarrow> Inl KeyError | Some t \<Rightarrow> Inr (c5 t))"
    by (simp only: format_card_def Let_def c1_def c2_def c3_def c4_def c5_def)
  have f1: "card_text c1 = map_option normalize_text (card_text c)" "card_flavor c1 = card_flavor c"
    "card_type c1 = card_type c" "card_set c1 = card_set c" "card_name c1 = card_name c"
    by (simp_all add: c1_def normalize_text_def normalize_tags_def Let_def split: option.splits)
  have f2: "card_text c2 = card_text c1" "card_flavor c2 = map_option normalize_tags (card_flavor c1)"
    "card_type c2 = card_type c1" "card_set c2 = card_set c1" "card_name c2 = card_name c1"
    by (simp_all add: c2_def normalize_tags_def Let_def split: option.splits)
  have f3: "card_text (c3 t) = card_text c2" "card_flavor (c3 t) = card_flavor c2"
    "card_type (c3 t) = card_type c2" "card_set (c3 t) = card_set c2" "card_name (c3 t) = card_name c2"
    by (simp_all add: c3_def)
  have f4: "card_text (c4 t) = card_text (c3 t)" "card_flavor (c4 t) = card_flavor (c3 t)"
    "card_type (c4 t) = card_type (c3 t)" "card_set (c4 t) = card_set (c3 t)"
    "card_name (c4 t) = card_name (c3 t)"
    by (simp_all add: c4_def split: option.splits)
  have f5: "card_text (c5 t) = card_text (c4 t)" "card_flavor (c5 t) = card_flavor (c4 t)"
    "card_type (c5 t) = card_type (c4 t)" "card_set (c5 t) = map_option display_set (card_set (c4 t))"
    "card_name (c5 t) = card_name (c4 t)"
    by (simp_all add: c5_def display_set_def split: option.splits)
  from assms have "format_card c = Inr (c5 t)"
    by (simp add: run f2 f1)
  then show ?thesis
    by (simp add: f1 f2 f3 f4 f5 assms)
qed

lemma format_card_KeyError: "card_type c = None \<Longrightarrow> format_card c = Inl KeyError"
  by (simp add: format_card_def Let_def split: option.splits)

subsection \<open>The passes of \<^verbatim>\<open>_format_card\<close> and the single reading of the specification\<close>


lemma match_rule_None:
  "match_rule rules s = None \<Longrightarrow> (old, new) \<in> set rules \<Longrightarrow> old \<noteq> [] \<Longrightarrow> \<not> prefix old s"
  by (induction rules) (auto split: if_splits)

















text \<open>
  Where a \<open>$\<close> follows a \<open>$\<close> the loop reads the text it has written, and the two
  differ. The character after the marker's first character is dropped whatever it is: the
  \<open>0\<close> of \<open>$10\<close> is.
\<close>

lemma replace_spell_power_char_adjacent:
  "replace_spell_power_char ''$$1''
     = [CHR 0x5C, CHR ''*'', CHR 0x5C, CHR ''*'', CHR 0x5C, CHR 0x5C, CHR ''*'', CHR '' '', CHR '' '']
   \<and> spec_spell_power ''$$1'' = [CHR 0x5C, CHR ''*'', CHR ''$'', CHR 0x5C, CHR ''*'', CHR '' '']"
  by code_simp

lemma replace_spell_power_char_two_digits:
  "replace_spell_power_char ''Deal $10 damage.''
     = ''Deal '' @ [CHR 0x5C] @ ''*1'' @ [CHR 0x5C] @ ''*  damage.''"
  by code_simp






section \<open>Properties of \<^verbatim>\<open>_clean_cards_dict\<close>\<close>

lemma clean_loop_filter:
  fixes u :: "string list"
  defines "keep \<equiv> \<lambda>c. the (card_set c) \<notin> set u
      \<and> the (card_type c) \<in> set [CardType_MINION, CardType_SPELL, CardType_WEAPON]"
  assumes "\<forall>c\<in>set r. card_type c \<noteq> None \<and> card_set c \<noteq> None"
  shows "clean_loop r u (filter keep p @ r) = Inr (filter keep (p @ r))"
  using assms(2)
proof (induction r arbitrary: p)
  case Nil
  then show ?case by simp
next
  case (Cons c r)
  from Cons.prems obtain t s where ts: "card_type c = Some t" "card_set c = Some s"
    by auto
  from Cons.prems have rest: "\<forall>c\<in>set r. card_type c \<noteq> None \<and> card_set c \<noteq> None"
    by simp
  show ?case
  proof (cases "keep c")
    case True
    then have "filter keep (p @ [c]) @ r = filter keep p @ c # r"
      by simp
    with Cons.IH [OF rest, of "p @ [c]"] True ts show ?thesis
      by (simp add: keep_def)
  next
    case False
    then have "list_remove (filter keep p @ c # r) c = Inr (filter keep p @ r)"
      by (simp add: list_remove_def remove1_append)
    moreover from False have "filter keep (p @ [c]) @ r = filter keep p @ r"
      by simp
    ultimately show ?thesis
      using Cons.IH [OF rest, of "p @ [c]"] False ts by (auto simp: keep_def)
  qed
qed

lemma list_all2_member:
  "list_all2 P xs ys \<Longrightarrow> y \<in> set ys \<Longrightarrow> \<exists>x\<in>set xs. P x y"
  by (induction rule: list_all2_induct) auto

lemma format_loop_map:
  assumes "\<forall>c\<in>set cs. card_type c \<noteq> None"
  shows "\<exists>cs'. format_loop cs = Inr cs' \<and> list_all2 (\<lambda>c c'. format_card c = Inr c') cs cs'"
  using assms
proof (induction cs)
  case Nil
  then show ?case by simp
next
  case (Cons c cs)
  then obtain t where "card_type c = Some t"
    by auto
  from format_card_fields [OF this] obtain c' where "format_card c = Inr c'"
    by blast
  moreover from Cons obtain cs' where "format_loop cs = Inr cs'"
    "list_all2 (\<lambda>c c'. format_card c = Inr c') cs cs'"
    by auto
  ultimately show ?case
    by simp
qed

lemma indexable_format_card:
  assumes "indexable r" and "format_card r = Inr c"
  shows "indexable c"
proof -
  from assms(1) obtain t s where ts: "card_type r = Some t" "card_set r = Some s"
    and t: "t \<in> set [CardType_MINION, CardType_SPELL, CardType_WEAPON]"
    and s: "s \<notin> set default_unwanted_sets"
    by (auto simp: indexable_def split: option.splits)
  from format_card_fields [OF ts(1)] assms(2) ts(2)
  have c: "card_type c = Some t" "card_set c = Some (display_set s)"
    by auto
  have "''Basic'' \<notin> set default_unwanted_sets" and "''Classic'' \<notin> set default_unwanted_sets"
    by (simp_all add: default_unwanted_sets_def CardSet_CHEAT_def CardSet_CREDITS_def
        CardSet_HERO_SKINS_def CardSet_MISSIONS_def CardSet_NONE_def CardSet_TAVERNBRAWL_def)
  with s have "display_set s \<notin> set default_unwanted_sets"
    by (simp add: display_set_def)
  with c t show ?thesis
    by (simp add: indexable_def)
qed

lemma clean_cards_dict_result:
  assumes "\<forall>r\<in>set raw. card_type r \<noteq> None \<and> card_set r \<noteq> None"
  shows "\<exists>cards. clean_cards_dict raw None = Inr cards
     \<and> list_all2 (\<lambda>r c. format_card r = Inr c) (filter indexable raw) cards"
proof -
  define keep :: "card \<Rightarrow> bool" where "keep = (\<lambda>c. the (card_set c) \<notin> set default_unwanted_sets
      \<and> the (card_type c) \<in> set [CardType_MINION, CardType_SPELL, CardType_WEAPON])"
  have "clean_loop raw default_unwanted_sets (filter keep [] @ raw) = Inr (filter keep ([] @ raw))"
    unfolding keep_def by (rule clean_loop_filter [OF assms])
  then have loop: "clean_loop raw default_unwanted_sets raw = Inr (filter keep raw)"
    by simp
  have "filter keep raw = filter indexable raw"
    using assms by (intro filter_cong) (auto simp: keep_def indexable_def)
  with loop have loop': "clean_loop raw default_unwanted_sets raw = Inr (filter indexable raw)"
    by simp
  from assms have "\<forall>c\<in>set (filter indexable raw). card_type c \<noteq> None"
    by simp
  from format_loop_map [OF this] loop' show ?thesis
    by (auto simp: clean_cards_dict_def)
qed

lemma find_card_loop_subset:
  "find_card_loop cs query m results = Inr results'
   \<Longrightarrow> fst ` set results' \<subseteq> fst ` set results \<union> set cs"
proof (induction cs arbitrary: results)
  case Nil
  then show ?case by auto
next
  case (Cons c cs)
  from Cons.prems obtain pm where pm: "card_percent_match query c = Inr pm"
    and rest: "find_card_loop cs query m (if m \<le> pm then results @ [(c, pm)] else results) = Inr results'"
    by (auto split: sum.splits)
  from Cons.IH [OF rest] show ?case
    by (auto split: if_splits)
qed

lemma find_card_member:
  assumes "fst (find_card self q m) = Inr (Some c)"
  shows "c \<in> set (self_cards self)"
proof -
  from assms obtain results where loop: "find_card_loop (self_cards self) (py_lower (py_strip CHR '' '' q)) m [] = Inr results"
    and ne: "results \<noteq> []" and c: "c = fst (hd (sort_key (\<lambda>r. - snd r) results))"
    by (auto simp: find_card_def Let_def split: if_splits sum.splits)
  from ne have "sort_key (\<lambda>r. - snd r) results \<noteq> []"
    by (metis length_0_conv length_sort)
  then have "hd (sort_key (\<lambda>r. - snd r) results) \<in> set (sort_key (\<lambda>r. - snd r) results)"
    by (rule hd_in_set)
  then have "hd (sort_key (\<lambda>r. - snd r) results) \<in> set results"
    by simp
  with c have "c \<in> fst ` set results"
    by auto
  with find_card_loop_subset [OF loop] show ?thesis
    by auto
qed

text \<open>
  Claim C7: when every raw record has a type and a set, the cleaning step returns a
  collection in which every card has a type among Minion, Spell and Weapon and a set
  outside the excluded-set list, and is the normalized form of a raw record with these
  two properties; so is every card that a lookup over the collection returns.
\<close>

theorem clean_cards_dict_index_invariant:
  assumes "\<forall>r\<in>set raw. card_type r \<noteq> None \<and> card_set r \<noteq> None"
  shows "\<exists>cards. clean_cards_dict raw None = Inr cards
     \<and> (\<forall>c\<in>set cards. indexable c \<and> (\<exists>r\<in>set raw. indexable r \<and> format_card r = Inr c))
     \<and> (\<forall>self query min_match c.
           self_cards self = cards \<and> fst (find_card self query min_match) = Inr (Some c)
           \<longrightarrow> indexable c \<and> (\<exists>r\<in>set raw. indexable r \<and> format_card r = Inr c))"
proof -
  from clean_cards_dict_result [OF assms] obtain cards where
    cards: "clean_cards_dict raw None = Inr cards"
    and rel: "list_all2 (\<lambda>r c. format_card r = Inr c) (filter indexable raw) cards"
    by blast
  have inv: "indexable c \<and> (\<exists>r\<in>set raw. indexable r \<and> format_card r = Inr c)"
    if "c \<in> set cards" for c
  proof -
    from list_all2_member [OF rel that]
    obtain r where "r \<in> set (filter indexable raw)" "format_card r = Inr c"
      by blast
    then show ?thesis
      by (auto intro: indexable_format_card)
  qed
  then have "\<forall>self query min_match c.
           self_cards self = cards \<and> fst (find_card self query min_match) = Inr (Some c)
           \<longrightarrow> indexable c \<and> (\<exists>r\<in>set raw. indexable r \<and> format_card r = Inr c)"
    using find_card_member by blast
  with cards inv show ?thesis
    by blast
qed

theorem clean_cards_dict_index_invariant_witness:
  "clean_cards_dict [make_card ''Ragnaros'' ''MINION'' ''EXPERT1'', make_card ''Jaina'' ''HERO'' ''CORE'',
       make_card ''Boss Spell'' ''SPELL'' ''TB'', make_card ''Jaina'' ''HERO'' ''CORE'',
       make_card ''Fiery War Axe'' ''WEAPON'' ''CORE''] None
     = Inr [make_card ''Ragnaros'' ''MINION'' ''Classic'', make_card ''Fiery War Axe'' ''WEAPON'' ''Basic'']
   \<and> indexable (make_card ''Ragnaros'' ''MINION'' ''Classic'')
   \<and> indexable (make_card ''Fiery War Axe'' ''WEAPON'' ''Basic'')"
proof -
  let ?raw = "[make_card ''Ragnaros'' ''MINION'' ''EXPERT1'', make_card ''Jaina'' ''HERO'' ''CORE'',
       make_card ''Boss Spell'' ''SPELL'' ''TB'', make_card ''Jaina'' ''HERO'' ''CORE'',
       make_card ''Fiery War Axe'' ''WEAPON'' ''CORE'']"
  have h: "\<forall>r\<in>set ?raw. card_type r \<noteq> None \<and> card_set r \<noteq> None"
    by (simp add: make_card_def)
  have v: "clean_cards_dict ?raw None
      = Inr [make_card ''Ragnaros'' ''MINION'' ''Classic'', make_card ''Fiery War Axe'' ''WEAPON'' ''Basic'']"
    by code_simp
  from clean_cards_dict_index_invariant [OF h] v show ?thesis
    by auto
qed

section \<open>Properties of \<^verbatim>\<open>_set_cards\<close>\<close>

text \<open>
  When the \<^verbatim>\<open>Last-Modified\<close> header is absent or parses, and when the request fails, the
  load step fetches exactly when the remote time is greater than the local one (each 0
  when unavailable); a fetch is followed by the write of what the download returned, and
  otherwise the local file is read and nothing is fetched.
\<close>

lemma set_cards_fetch_iff:
  assumes "\<forall>header. head_reply w \<noteq> HeadDate header None"
  shows "(GetRemote \<in> set (io_log (snd (set_cards w))) \<longleftrightarrow>
            GetRemote \<in> set (io_log w) \<or> spec_remote_time w > spec_local_time w)
     \<and> (spec_remote_time w > spec_local_time w \<longrightarrow>
            (\<exists>cards. fst (set_cards w) = Inr cards
               \<and> cards = (case get_reply w of Inl e \<Rightarrow> None | Inr d \<Rightarrow> d)
               \<and> local_file (snd (set_cards w)) = Inr cards
               \<and> io_log (snd (set_cards w)) = io_log w @ [StatLocal, HeadRemote, GetRemote, WriteLocal]))
     \<and> (\<not> spec_remote_time w > spec_local_time w \<longrightarrow>
            fst (set_cards w) = local_file w
            \<and> local_file (snd (set_cards w)) = local_file w
            \<and> io_log (snd (set_cards w)) = io_log w @ [StatLocal, HeadRemote, ReadLocal])"
proof (cases "head_reply w")
  case HeadRaises
  then show ?thesis
    by (cases "stat_mtime w")
       (auto simp: set_cards_def get_server_mod_time_def download_card_json_def load_card_json_def
          save_card_json_def spec_remote_time_def spec_local_time_def Let_def)
next
  case HeadNoDate
  then show ?thesis
    by (cases "stat_mtime w")
       (auto simp: set_cards_def get_server_mod_time_def download_card_json_def load_card_json_def
          save_card_json_def spec_remote_time_def spec_local_time_def Let_def)
next
  case (HeadDate header p)
  with assms obtain t where "p = Some t"
    by (cases p) auto
  with HeadDate show ?thesis
    by (cases "stat_mtime w")
       (auto simp: set_cards_def get_server_mod_time_def download_card_json_def load_card_json_def
          save_card_json_def spec_remote_time_def spec_local_time_def Let_def)
qed

text \<open>
  Claim C3 fails on a reply whose \<^verbatim>\<open>Last-Modified\<close> header does not parse (here a date
  in the RFC 850 form): the remote time is not taken as 0; the header string is compared
  with the local time, which raises \<^verbatim>\<open>TypeError\<close> before any fetch and before the local
  file is read.
\<close>

theorem set_cards_unparsed_header_raises:
  "fst (set_cards \<lparr>stat_mtime = Some 1446336000, local_file = Inr (Some [make_card ''Ragnaros'' ''MINION'' ''EXPERT1'']),
          head_reply = HeadDate ''Sunday, 01-Nov-15 00:00:00 GMT'' None,
          get_reply = Inr (Some [make_card ''Ragnaros'' ''MINION'' ''EXPERT1'']),
          clock = 1446422400, io_log = []\<rparr>) = Inl TypeError
   \<and> io_log (snd (set_cards \<lparr>stat_mtime = Some 1446336000, local_file = Inr (Some [make_card ''Ragnaros'' ''MINION'' ''EXPERT1'']),
          head_reply = HeadDate ''Sunday, 01-Nov-15 00:00:00 GMT'' None,
          get_reply = Inr (Some [make_card ''Ragnaros'' ''MINION'' ''EXPERT1'']),
          clock = 1446422400, io_log = []\<rparr>)) = [StatLocal, HeadRemote]"
  by (simp add: set_cards_def get_server_mod_time_def)

text \<open>
  Claim C4, as amended: when the remote time is newer than the local one and the fetch
  fails, the download step catches the error and the load operation returns no records
  (\<^verbatim>\<open>None\<close>) without raising; the local copy is not read in its place.
\<close>

theorem set_cards_failed_fetch:
  assumes "head_reply w = HeadDate header (Some t)" and "t > spec_local_time w"
    and "get_reply w = Inl e"
  shows "fst (set_cards w) = Inr None
     \<and> io_log (snd (set_cards w)) = io_log w @ [StatLocal, HeadRemote, GetRemote, WriteLocal]"
  using assms
  by (cases "stat_mtime w")
     (auto simp: set_cards_def get_server_mod_time_def download_card_json_def
        save_card_json_def spec_local_time_def Let_def)

theorem set_cards_failed_fetch_witness:
  "fst (set_cards \<lparr>stat_mtime = Some 100, local_file = Inr (Some [make_card ''Ragnaros'' ''MINION'' ''EXPERT1'']),
          head_reply = HeadDate ''Sun, 01 Nov 2015 00:00:00 GMT'' (Some 200),
          get_reply = Inl RequestException, clock = 300, io_log = []\<rparr>) = Inr None
   \<and> io_log (snd (set_cards \<lparr>stat_mtime = Some 100, local_file = Inr (Some [make_card ''Ragnaros'' ''MINION'' ''EXPERT1'']),
          head_reply = HeadDate ''Sun, 01 Nov 2015 00:00:00 GMT'' (Some 200),
          get_reply = Inl RequestException, clock = 300, io_log = []\<rparr>))
       = [StatLocal, HeadRemote, GetRemote, WriteLocal]"
proof -
  let ?w = "\<lparr>stat_mtime = Some 100, local_file = Inr (Some [make_card ''Ragnaros'' ''MINION'' ''EXPERT1'']),
          head_reply = HeadDate ''Sun, 01 Nov 2015 00:00:00 GMT'' (Some 200),
          get_reply = Inl RequestException, clock = 300, io_log = []\<rparr>"
  have h1: "head_reply ?w = HeadDate ''Sun, 01 Nov 2015 00:00:00 GMT'' (Some 200)"
    by simp
  have h2: "200 > spec_local_time ?w"
    by (simp add: spec_local_time_def)
  have h3: "get_reply ?w = Inl RequestException"
    by simp
  from set_cards_failed_fetch [OF h1 h2 h3] show ?thesis
    by simp
qed

text \<open>
  Claim C4 as stated fails: with a newer remote time and a failed fetch the load operation
  raises nothing, it returns \<^verbatim>\<open>None\<close>.
\<close>

theorem set_cards_fetch_error_counterexample:
  "fst (set_cards \<lparr>stat_mtime = Some 100, local_file = Inr (Some [make_card ''Ragnaros'' ''MINION'' ''EXPERT1'']),
          head_reply = HeadDate ''Sun, 01 Nov 2015 00:00:00 GMT'' (Some 200),
          get_reply = Inl RequestException, clock = 300, io_log = []\<rparr>) = Inr None
   \<and> \<not> isl (fst (set_cards \<lparr>stat_mtime = Some 100, local_file = Inr (Some [make_card ''Ragnaros'' ''MINION'' ''EXPERT1'']),
          head_reply = HeadDate ''Sun, 01 Nov 2015 00:00:00 GMT'' (Some 200),
          get_reply = Inl RequestException, clock = 300, io_log = []\<rparr>))"
  by (simp add: set_cards_def get_server_mod_time_def download_card_json_def save_card_json_def)

end
